theory Spec2Isabelle
  imports Main "HOL-Library.Multiset" "HOL-Library.Word"
begin

section \<open>The thread pool: data\<close>

text \<open>
  The repository holds two revisions of one header-only class \<open>ThreadPool\<close>:
  \<open>ThreadPool.hpp\<close> (non-blocking API only) and a later revision that adds the blocking
  API (\<open>run_tasks\<close>, \<open>run_loop\<close>). Definitions without a suffix follow the later
  revision; definitions with the suffix \<open>_v1\<close> follow \<open>ThreadPool.hpp\<close>.

  The class is concurrent, so the model is a transition system: every thread has a program
  counter, one step of one thread is a function on the state, and a schedule (a list of
  events) selects whose turn it is. The members of the class (\<open>running\<close>, \<open>threads\<close>,
  \<open>jobs\<close>, \<open>data_lock\<close>; \<open>cv\<close> has no state beyond which workers are blocked on it) are
  fields of the record \<open>pool\<close>, next to the threads that use the object.
\<close>

text \<open>A thread that can own \<open>data_lock\<close>: a worker (its index in \<open>threads\<close>) or a caller.\<close>

datatype actor = Worker nat | Caller nat

text \<open>
  \<open>struct Job\<close> only wraps a \<open>std::function<void()>\<close>. The callables the class stores are
  of three shapes: a task handed to \<open>detach_task\<close>/\<open>detach_tasks\<close> as it is (tasks are
  opaque, a number identifies one); the lambda of \<open>run_tasks\<close>,
  \<open>[&]() { task(); sem.release(); }\<close>, with its task and its semaphore; and the lambda of
  \<open>run_loop\<close>, \<open>[&, i]() { loop_body(i) or loop_body(); sem.release(); }\<close>, with the index it
  passes (\<open>None\<close> when the body takes no argument) and its semaphore.
\<close>

datatype job = Plain nat | Run_wrapper nat nat | Loop_wrapper "nat option" nat

text \<open>
  Where a worker stands in \<open>worker_loop\<close>. \<open>cv.wait(lock, pred)\<close> is, by the C++ standard,
  \<open>while (!pred()) wait(lock);\<close>: \<open>W_pred\<close> evaluates the predicate, \<open>W_wait\<close> is the call
  of \<open>wait(lock)\<close> that follows a false predicate, \<open>W_blocked\<close> is the thread asleep in it
  with the lock released, \<open>W_woken\<close> is the thread woken and about to take the lock again.
\<close>

datatype worker_pc =
    W_while
  | W_lock
  | W_pred
  | W_wait
  | W_blocked
  | W_woken
  | W_check
  | W_front
  | W_unlock job
  | W_invoke job
  | W_release job
  | W_done

text \<open>Where the owner of the pool stands in \<open>~ThreadPool\<close> (\<open>D_alive\<close>: not called yet).\<close>

datatype destructor_pc = D_alive | D_notify | D_join nat | D_done

text \<open>
  The body handed to \<open>run_loop\<close>: \<open>std::function<void()>\<close>, or \<open>std::function<void(T)>\<close>
  for an unsigned integral \<open>T\<close> of the given width in bits (signed \<open>T\<close> is not modelled).
\<close>

datatype loop_fn = No_arg | Unsigned_arg nat

text \<open>
  The statements of the submitting functions. \<open>For_emplace body sem i end\<close> is the loop
  \<open>for (induction_type i = start; i < end; ++i) jobs.emplace(...)\<close> of \<open>run_loop\<close>,
  standing at index \<open>i\<close>.
\<close>

datatype instr =
    Lock
  | Unlock
  | Emplace job
  | For_emplace loop_fn nat nat nat
  | Notify_one
  | Notify_all
  | Acquire nat

type_synonym size_t = "64 word"

text \<open>
  The public submitting functions, with their arguments. \<open>Detach_tasks_arr\<close> is the
  overload of \<open>ThreadPool.hpp\<close> taking a pointer and a count.
\<close>

datatype op =
    Detach_task nat
  | Detach_tasks "nat list"
  | Detach_tasks_arr "nat list" nat
  | Run_tasks "nat list"
  | Run_loop size_t size_t loop_fn

text \<open>
  A caller thread is outside the class, or inside one of its functions: the call, its local
  semaphore (\<open>run_tasks\<close> and \<open>run_loop\<close> declare one) and the statements still to run.
\<close>

datatype caller_pc = Idle | Running op "nat option" "instr list"

datatype exn = Runtime_error string

text \<open>
  The state. \<open>sems\<close> is the store of the semaphores (their counters) and \<open>next_sem\<close> the
  next free address in it. \<open>enqueued\<close>, \<open>dequeued\<close>, \<open>started\<close> and \<open>finished\<close> are history
  variables: the jobs pushed, the jobs popped, the jobs whose callable has been called and
  the jobs whose callable has returned, each in the order it happened. No step reads a
  history variable.
\<close>

record pool =
  running :: bool
  threads :: "worker_pc list"
  jobs :: "job list"
  data_lock :: "actor option"
  callers :: "nat \<Rightarrow> caller_pc"
  destructor :: destructor_pc
  sems :: "nat \<Rightarrow> nat"
  next_sem :: nat
  enqueued :: "job list"
  dequeued :: "job list"
  started :: "job list"
  finished :: "job list"

section \<open>Construction, \<open>reset\<close> and \<open>size\<close>\<close>

text \<open>
  The member initialisers: \<open>running = true\<close>, no thread, an empty queue, a free mutex.
  Around the object: no caller inside it, the destructor not called, no semaphore.
\<close>

definition new_pool :: pool where
  "new_pool = \<lparr> running = True, threads = [], jobs = [], data_lock = None,
     callers = (\<lambda>_. Idle), destructor = D_alive, sems = (\<lambda>_. 0), next_sem = 0,
     enqueued = [], dequeued = [], started = [], finished = [] \<rparr>"

text \<open>
  The loop of \<open>reset\<close>: \<open>for (; i < num_threads; i++) threads.emplace_back(...)\<close>. A new
  thread starts at the top of \<open>worker_loop\<close>. \<open>size_t\<close> values are read as naturals: the
  loop counts up to \<open>num_threads\<close> and never wraps.
\<close>

function spawn :: "nat \<Rightarrow> nat \<Rightarrow> pool \<Rightarrow> pool" where
  "spawn i num_threads p =
     (if i < num_threads
      then spawn (Suc i) num_threads (p\<lparr>threads := threads p @ [W_while]\<rparr>)
      else p)"
  by pat_completeness auto
termination
  by (relation "measure (\<lambda>(i, num_threads, p). num_threads - i)") auto

declare spawn.simps [simp del]

text \<open>
  \<open>reset\<close> returns the exception it throws, if any, and the pool it leaves behind.
\<close>

definition reset :: "nat \<Rightarrow> pool \<Rightarrow> (exn + unit) \<times> pool" where
  "reset num_threads p =
     (if num_threads \<ge> length (threads p)
      then (Inr (), spawn (length (threads p)) num_threads p)
      else (Inl (Runtime_error ''Cannot downscale thread pool''), p))"

definition size_pool :: "pool \<Rightarrow> nat" where
  "size_pool p = length (threads p)"

text \<open>
  The constructors call \<open>reset\<close> on the freshly initialised members; the default one passes
  \<open>std::thread::hardware_concurrency()\<close>, an argument here. \<open>reset\<close> cannot throw on a pool
  without threads (lemma \<open>constructor_no_throw\<close>), so a constructor yields a pool.
\<close>

definition ThreadPool :: "nat \<Rightarrow> pool" where
  "ThreadPool num_threads = snd (reset num_threads new_pool)"

definition ThreadPool_default :: "nat \<Rightarrow> pool" where
  "ThreadPool_default hardware_concurrency = snd (reset hardware_concurrency new_pool)"

section \<open>The condition variable and the worker loop\<close>

text \<open>
  \<open>cv.notify_all()\<close> wakes every thread blocked in \<open>cv.wait\<close>. \<open>cv.notify_one()\<close> wakes one
  of them, if there is one; which one is not specified, so the schedule names it (\<open>k\<close>).
  A blocked thread may also wake up spuriously.
\<close>

definition cv_notify_all :: "pool \<Rightarrow> pool" where
  "cv_notify_all s =
     s\<lparr>threads := map (\<lambda>pc. if pc = W_blocked then W_woken else pc) (threads s)\<rparr>"

definition cv_notify_one :: "nat \<Rightarrow> pool \<Rightarrow> pool option" where
  "cv_notify_one k s =
     (if W_blocked \<notin> set (threads s) then Some s
      else if k < length (threads s) \<and> threads s ! k = W_blocked
      then Some (s\<lparr>threads := (threads s)[k := W_woken]\<rparr>)
      else None)"

definition spurious_wakeup :: "nat \<Rightarrow> pool \<Rightarrow> pool option" where
  "spurious_wakeup w s =
     (if w < length (threads s) \<and> threads s ! w = W_blocked
      then Some (s\<lparr>threads := (threads s)[w := W_woken]\<rparr>)
      else None)"

text \<open>The semaphore a stored callable releases when its body has returned, if any.\<close>

fun sem_of :: "job \<Rightarrow> nat option" where
  "sem_of (Plain task) = None"
| "sem_of (Run_wrapper task sem) = Some sem"
| "sem_of (Loop_wrapper i sem) = Some sem"

text \<open>
  One step of worker \<open>w\<close> in \<open>worker_loop\<close>; \<open>None\<close> when the thread cannot move (it waits
  for the mutex, sleeps on \<open>cv\<close>, or has returned). \<open>jobs.front()\<close> on an empty queue is
  undefined behaviour: no step (lemma \<open>front_defined\<close> shows it does not happen).
  \<open>job.job()\<close> is two steps for a wrapper: the user's callable, then \<open>sem.release()\<close>.
  The user's callable is assumed to return and not to touch the pool.
\<close>

definition worker_loop :: "nat \<Rightarrow> pool \<Rightarrow> pool option" where
  "worker_loop w s =
     (if w < length (threads s) then
        (case threads s ! w of
           W_while \<Rightarrow>
             Some (s\<lparr>threads := (threads s)[w := (if running s then W_lock else W_done)]\<rparr>)
         | W_lock \<Rightarrow>
             if data_lock s = None
             then Some (s\<lparr>data_lock := Some (Worker w), threads := (threads s)[w := W_pred]\<rparr>)
             else None
         | W_pred \<Rightarrow>
             Some (s\<lparr>threads :=
               (threads s)[w := (if jobs s \<noteq> [] \<or> \<not> running s then W_check else W_wait)]\<rparr>)
         | W_wait \<Rightarrow>
             Some (s\<lparr>data_lock := None, threads := (threads s)[w := W_blocked]\<rparr>)
         | W_blocked \<Rightarrow> None
         | W_woken \<Rightarrow>
             if data_lock s = None
             then Some (s\<lparr>data_lock := Some (Worker w), threads := (threads s)[w := W_pred]\<rparr>)
             else None
         | W_check \<Rightarrow>
             if \<not> running s
             then Some (s\<lparr>data_lock := None, threads := (threads s)[w := W_done]\<rparr>)
             else Some (s\<lparr>threads := (threads s)[w := W_front]\<rparr>)
         | W_front \<Rightarrow>
             (case jobs s of
                [] \<Rightarrow> None
              | j # js \<Rightarrow>
                  Some (s\<lparr>jobs := js, dequeued := dequeued s @ [j],
                          threads := (threads s)[w := W_unlock j]\<rparr>))
         | W_unlock j \<Rightarrow>
             Some (s\<lparr>data_lock := None, threads := (threads s)[w := W_invoke j]\<rparr>)
         | W_invoke j \<Rightarrow>
             (case sem_of j of
                None \<Rightarrow>
                  Some (s\<lparr>started := started s @ [j], finished := finished s @ [j],
                          threads := (threads s)[w := W_while]\<rparr>)
              | Some sem \<Rightarrow>
                  Some (s\<lparr>started := started s @ [j],
                          threads := (threads s)[w := W_release j]\<rparr>))
         | W_release j \<Rightarrow>
             Some (s\<lparr>sems := (case sem_of j of
                                 None \<Rightarrow> sems s
                               | Some sem \<Rightarrow> (sems s)(sem := Suc (sems s sem))),
                     finished := finished s @ [j],
                     threads := (threads s)[w := W_while]\<rparr>)
         | W_done \<Rightarrow> None)
      else None)"

text \<open>
  One step of \<open>~ThreadPool\<close>: \<open>running = false\<close>, then \<open>cv.notify_all()\<close>, then
  \<open>thread.join()\<close> for each thread in turn, which waits until that thread has returned.
\<close>

definition ThreadPool_destructor :: "pool \<Rightarrow> pool option" where
  "ThreadPool_destructor s =
     (case destructor s of
        D_alive \<Rightarrow> Some (s\<lparr>running := False, destructor := D_notify\<rparr>)
      | D_notify \<Rightarrow> Some ((cv_notify_all s)\<lparr>destructor := D_join 0\<rparr>)
      | D_join i \<Rightarrow>
          if i < length (threads s)
          then (if threads s ! i = W_done then Some (s\<lparr>destructor := D_join (Suc i)\<rparr>) else None)
          else Some (s\<lparr>destructor := D_done\<rparr>)
      | D_done \<Rightarrow> None)"

section \<open>The submitting functions\<close>

text \<open>
  Each function is the list of its statements. A \<open>std::scoped_lock\<close> in a block is \<open>Lock\<close>
  at the block's start and \<open>Unlock\<close> at its end. The range-for loops over \<open>tasks\<close> are
  unrolled (one \<open>Emplace\<close> per element, in order), and so are the loops of \<open>sem.acquire()\<close>.
\<close>

definition detach_task :: "nat \<Rightarrow> instr list" where
  "detach_task task = [Lock, Emplace (Plain task), Unlock, Notify_one]"

definition detach_tasks :: "nat list \<Rightarrow> instr list" where
  "detach_tasks tasks =
     [Lock] @ map (\<lambda>task. Emplace (Plain task)) tasks @ [Unlock, Notify_all]"

definition run_tasks :: "nat \<Rightarrow> nat list \<Rightarrow> instr list" where
  "run_tasks sem tasks =
     [Lock] @ map (\<lambda>task. Emplace (Run_wrapper task sem)) tasks @ [Unlock, Notify_all]
       @ replicate (length tasks) (Acquire sem)"

text \<open>
  \<open>run_loop\<close>: \<open>induction_type\<close> is \<open>size_t\<close> when the body takes no argument, and the
  body's argument type otherwise. \<open>induction_type i = start\<close> converts \<open>start\<close> to it
  (modulo \<open>2 ^ bits\<close>), \<open>i < end\<close> compares the values, \<open>++i\<close> wraps. The second loop,
  \<open>for (size_t i = start; i < end; i++) sem.acquire()\<close>, runs \<open>end - start\<close> times when
  \<open>start < end\<close> and not at all otherwise. (\<open>stop\<close> stands for the parameter \<open>end\<close>.)
\<close>

fun induction_bits :: "loop_fn \<Rightarrow> nat" where
  "induction_bits No_arg = 64"
| "induction_bits (Unsigned_arg bits) = bits"

fun loop_arg :: "loop_fn \<Rightarrow> nat \<Rightarrow> nat option" where
  "loop_arg No_arg i = None"
| "loop_arg (Unsigned_arg bits) i = Some i"

definition run_loop :: "nat \<Rightarrow> size_t \<Rightarrow> size_t \<Rightarrow> loop_fn \<Rightarrow> instr list" where
  "run_loop sem start stop loop_body =
     [Lock,
      For_emplace loop_body sem (unat start mod 2 ^ induction_bits loop_body) (unat stop),
      Unlock, Notify_all]
       @ replicate (unat stop - unat start) (Acquire sem)"

text \<open>
  \<open>ThreadPool.hpp\<close>: the \<open>std::unique_lock\<close> lives to the end of the function, so the
  notification comes before the unlock. Reading \<open>tasks[i]\<close> past the end of the array is
  undefined behaviour: \<open>detach_tasks_arr_v1\<close> is \<open>None\<close> there.
\<close>

definition detach_task_v1 :: "nat \<Rightarrow> instr list" where
  "detach_task_v1 task = [Lock, Emplace (Plain task), Notify_one, Unlock]"

definition detach_tasks_v1 :: "nat list \<Rightarrow> instr list" where
  "detach_tasks_v1 tasks =
     [Lock] @ map (\<lambda>task. Emplace (Plain task)) tasks @ [Notify_all, Unlock]"

definition detach_tasks_arr_v1 :: "nat list \<Rightarrow> nat \<Rightarrow> instr list option" where
  "detach_tasks_arr_v1 tasks num_tasks =
     (if num_tasks \<le> length tasks
      then Some ([Lock] @ map (\<lambda>task. Emplace (Plain task)) (take num_tasks tasks)
                 @ [Notify_all, Unlock])
      else None)"

datatype revision = Rev1 | Rev2

text \<open>The statements of a call, in the given revision; \<open>None\<close>: the revision has no such function.\<close>

fun program :: "revision \<Rightarrow> op \<Rightarrow> nat \<Rightarrow> instr list option" where
  "program Rev1 (Detach_task task) sem = Some (detach_task_v1 task)"
| "program Rev1 (Detach_tasks tasks) sem = Some (detach_tasks_v1 tasks)"
| "program Rev1 (Detach_tasks_arr tasks num_tasks) sem = detach_tasks_arr_v1 tasks num_tasks"
| "program Rev1 (Run_tasks tasks) sem = None"
| "program Rev1 (Run_loop start stop loop_body) sem = None"
| "program Rev2 (Detach_task task) sem = Some (detach_task task)"
| "program Rev2 (Detach_tasks tasks) sem = Some (detach_tasks tasks)"
| "program Rev2 (Detach_tasks_arr tasks num_tasks) sem = None"
| "program Rev2 (Run_tasks tasks) sem = Some (run_tasks sem tasks)"
| "program Rev2 (Run_loop start stop loop_body) sem = Some (run_loop sem start stop loop_body)"

text \<open>The functions that declare \<open>std::counting_semaphore sem(0)\<close>.\<close>

fun blocking :: "op \<Rightarrow> bool" where
  "blocking (Run_tasks tasks) = True"
| "blocking (Run_loop start stop loop_body) = True"
| "blocking f = False"

text \<open>Caller \<open>c\<close> enters a function: a blocking one gets a fresh semaphore with count 0.\<close>

definition call :: "revision \<Rightarrow> nat \<Rightarrow> op \<Rightarrow> pool \<Rightarrow> pool option" where
  "call rv c f s =
     (case callers s c of
        Idle \<Rightarrow>
          (case program rv f (next_sem s) of
             None \<Rightarrow> None
           | Some prog \<Rightarrow>
               if blocking f
               then Some (s\<lparr>callers := (callers s)(c := Running f (Some (next_sem s)) prog),
                            sems := (sems s)(next_sem s := 0),
                            next_sem := Suc (next_sem s)\<rparr>)
               else Some (s\<lparr>callers := (callers s)(c := Running f None prog)\<rparr>))
      | Running g m prog \<Rightarrow> None)"

text \<open>
  One statement of caller \<open>c\<close>; with no statement left the function returns. \<open>Lock\<close> waits
  for the mutex and \<open>Acquire\<close> for a positive count (\<open>None\<close>: the caller cannot move).
\<close>

definition caller_step :: "nat \<Rightarrow> nat \<Rightarrow> pool \<Rightarrow> pool option" where
  "caller_step c k s =
     (case callers s c of
        Idle \<Rightarrow> None
      | Running f m [] \<Rightarrow> Some (s\<lparr>callers := (callers s)(c := Idle)\<rparr>)
      | Running f m (i # prog) \<Rightarrow>
          (case i of
             Lock \<Rightarrow>
               if data_lock s = None
               then Some (s\<lparr>data_lock := Some (Caller c),
                            callers := (callers s)(c := Running f m prog)\<rparr>)
               else None
           | Unlock \<Rightarrow>
               Some (s\<lparr>data_lock := None, callers := (callers s)(c := Running f m prog)\<rparr>)
           | Emplace j \<Rightarrow>
               Some (s\<lparr>jobs := jobs s @ [j], enqueued := enqueued s @ [j],
                       callers := (callers s)(c := Running f m prog)\<rparr>)
           | For_emplace loop_body sem n stop \<Rightarrow>
               if n < stop
               then Some (s\<lparr>jobs := jobs s @ [Loop_wrapper (loop_arg loop_body n) sem],
                            enqueued := enqueued s @ [Loop_wrapper (loop_arg loop_body n) sem],
                            callers := (callers s)(c := Running f m
                              (For_emplace loop_body sem
                                 (Suc n mod 2 ^ induction_bits loop_body) stop # prog))\<rparr>)
               else Some (s\<lparr>callers := (callers s)(c := Running f m prog)\<rparr>)
           | Notify_one \<Rightarrow>
               (case cv_notify_one k s of
                  None \<Rightarrow> None
                | Some s' \<Rightarrow> Some (s'\<lparr>callers := (callers s)(c := Running f m prog)\<rparr>))
           | Notify_all \<Rightarrow>
               Some ((cv_notify_all s)\<lparr>callers := (callers s)(c := Running f m prog)\<rparr>)
           | Acquire sem \<Rightarrow>
               if 0 < sems s sem
               then Some (s\<lparr>sems := (sems s)(sem := sems s sem - 1),
                            callers := (callers s)(c := Running f m prog)\<rparr>)
               else None))"

section \<open>\<open>ThreadPool.hpp\<close>: the members shared with the later revision\<close>

text \<open>
  \<open>reset\<close>, \<open>size\<close>, the constructors, the destructor and \<open>worker_loop\<close> of
  \<open>ThreadPool.hpp\<close>, translated from that file.
\<close>

function spawn_v1 :: "nat \<Rightarrow> nat \<Rightarrow> pool \<Rightarrow> pool" where
  "spawn_v1 i num_threads p =
     (if i < num_threads
      then spawn_v1 (Suc i) num_threads (p\<lparr>threads := threads p @ [W_while]\<rparr>)
      else p)"
  by pat_completeness auto
termination
  by (relation "measure (\<lambda>(i, num_threads, p). num_threads - i)") auto

declare spawn_v1.simps [simp del]

definition reset_v1 :: "nat \<Rightarrow> pool \<Rightarrow> (exn + unit) \<times> pool" where
  "reset_v1 num_threads p =
     (if num_threads \<ge> length (threads p)
      then (Inr (), spawn_v1 (length (threads p)) num_threads p)
      else (Inl (Runtime_error ''Cannot downscale thread pool''), p))"

definition size_pool_v1 :: "pool \<Rightarrow> nat" where
  "size_pool_v1 p = length (threads p)"

definition ThreadPool_v1 :: "nat \<Rightarrow> pool" where
  "ThreadPool_v1 num_threads = snd (reset_v1 num_threads new_pool)"

definition ThreadPool_default_v1 :: "nat \<Rightarrow> pool" where
  "ThreadPool_default_v1 hardware_concurrency = snd (reset_v1 hardware_concurrency new_pool)"

definition ThreadPool_destructor_v1 :: "pool \<Rightarrow> pool option" where
  "ThreadPool_destructor_v1 s =
     (case destructor s of
        D_alive \<Rightarrow> Some (s\<lparr>running := False, destructor := D_notify\<rparr>)
      | D_notify \<Rightarrow> Some ((cv_notify_all s)\<lparr>destructor := D_join 0\<rparr>)
      | D_join i \<Rightarrow>
          if i < length (threads s)
          then (if threads s ! i = W_done then Some (s\<lparr>destructor := D_join (Suc i)\<rparr>) else None)
          else Some (s\<lparr>destructor := D_done\<rparr>)
      | D_done \<Rightarrow> None)"

definition worker_loop_v1 :: "nat \<Rightarrow> pool \<Rightarrow> pool option" where
  "worker_loop_v1 w s =
     (if w < length (threads s) then
        (case threads s ! w of
           W_while \<Rightarrow>
             Some (s\<lparr>threads := (threads s)[w := (if running s then W_lock else W_done)]\<rparr>)
         | W_lock \<Rightarrow>
             if data_lock s = None
             then Some (s\<lparr>data_lock := Some (Worker w), threads := (threads s)[w := W_pred]\<rparr>)
             else None
         | W_pred \<Rightarrow>
             Some (s\<lparr>threads :=
               (threads s)[w := (if jobs s \<noteq> [] \<or> \<not> running s then W_check else W_wait)]\<rparr>)
         | W_wait \<Rightarrow>
             Some (s\<lparr>data_lock := None, threads := (threads s)[w := W_blocked]\<rparr>)
         | W_blocked \<Rightarrow> None
         | W_woken \<Rightarrow>
             if data_lock s = None
             then Some (s\<lparr>data_lock := Some (Worker w), threads := (threads s)[w := W_pred]\<rparr>)
             else None
         | W_check \<Rightarrow>
             if \<not> running s
             then Some (s\<lparr>data_lock := None, threads := (threads s)[w := W_done]\<rparr>)
             else Some (s\<lparr>threads := (threads s)[w := W_front]\<rparr>)
         | W_front \<Rightarrow>
             (case jobs s of
                [] \<Rightarrow> None
              | j # js \<Rightarrow>
                  Some (s\<lparr>jobs := js, dequeued := dequeued s @ [j],
                          threads := (threads s)[w := W_unlock j]\<rparr>))
         | W_unlock j \<Rightarrow>
             Some (s\<lparr>data_lock := None, threads := (threads s)[w := W_invoke j]\<rparr>)
         | W_invoke j \<Rightarrow>
             (case sem_of j of
                None \<Rightarrow>
                  Some (s\<lparr>started := started s @ [j], finished := finished s @ [j],
                          threads := (threads s)[w := W_while]\<rparr>)
              | Some sem \<Rightarrow>
                  Some (s\<lparr>started := started s @ [j],
                          threads := (threads s)[w := W_release j]\<rparr>))
         | W_release j \<Rightarrow>
             Some (s\<lparr>sems := (case sem_of j of
                                 None \<Rightarrow> sems s
                               | Some sem \<Rightarrow> (sems s)(sem := Suc (sems s sem))),
                     finished := finished s @ [j],
                     threads := (threads s)[w := W_while]\<rparr>)
         | W_done \<Rightarrow> None)
      else None)"

section \<open>Schedules\<close>

text \<open>
  An event is one step of one thread: a worker, a spurious wake-up of a worker, a caller
  entering a function, a caller's next statement (with the scheduler's choice for
  \<open>notify_one\<close>), the owner calling \<open>reset\<close>, or the owner's next step in the destructor.
  The owner calls \<open>reset\<close> only on a pool it has not begun to destroy; the exception of
  \<open>reset\<close> goes to the owner and leaves the pool as it was.
\<close>

datatype event =
    Work nat
  | Spurious nat
  | Call nat op
  | Step nat nat
  | Reset nat
  | Destroy

definition step :: "revision \<Rightarrow> event \<Rightarrow> pool \<Rightarrow> pool option" where
  "step rv e s =
     (case e of
        Work w \<Rightarrow> (case rv of Rev1 \<Rightarrow> worker_loop_v1 w s | Rev2 \<Rightarrow> worker_loop w s)
      | Spurious w \<Rightarrow> spurious_wakeup w s
      | Call c f \<Rightarrow> call rv c f s
      | Step c k \<Rightarrow> caller_step c k s
      | Reset n \<Rightarrow>
          if destructor s = D_alive
          then Some (snd (case rv of Rev1 \<Rightarrow> reset_v1 n s | Rev2 \<Rightarrow> reset n s))
          else None
      | Destroy \<Rightarrow>
          (case rv of Rev1 \<Rightarrow> ThreadPool_destructor_v1 s | Rev2 \<Rightarrow> ThreadPool_destructor s))"

fun exec :: "revision \<Rightarrow> event list \<Rightarrow> pool \<Rightarrow> pool option" where
  "exec rv [] s = Some s"
| "exec rv (e # es) s = (case step rv e s of None \<Rightarrow> None | Some s' \<Rightarrow> exec rv es s')"

section \<open>Invariants: definitions\<close>

text \<open>
  The invariants below hold in every state a schedule can reach from a constructed pool;
  the claims about the queue, the lock and \<open>run_tasks\<close> follow from them.
\<close>

subsection \<open>The lock\<close>

text \<open>
  The places of \<open>worker_loop\<close> between taking the lock and giving it back.
\<close>

fun w_holds :: "worker_pc \<Rightarrow> bool" where
  "w_holds W_pred = True"
| "w_holds W_wait = True"
| "w_holds W_check = True"
| "w_holds W_front = True"
| "w_holds (W_unlock j) = True"
| "w_holds pc = False"

text \<open>
  A caller is inside a critical section when, of the \<open>Lock\<close>s and \<open>Unlock\<close>s it has still
  to run, the first is an \<open>Unlock\<close>. A list of statements is well formed when its locks and
  unlocks alternate and every push stands inside a critical section.
\<close>

fun holding :: "instr list \<Rightarrow> bool" where
  "holding [] = False"
| "holding (Lock # prog) = False"
| "holding (Unlock # prog) = True"
| "holding (i # prog) = holding prog"

fun wf_prog :: "instr list \<Rightarrow> bool" where
  "wf_prog [] = True"
| "wf_prog (Lock # prog) = (holding prog \<and> wf_prog prog)"
| "wf_prog (Unlock # prog) = (\<not> holding prog \<and> wf_prog prog)"
| "wf_prog (Emplace j # prog) = (holding prog \<and> wf_prog prog)"
| "wf_prog (For_emplace loop_body sem n stop # prog) = (holding prog \<and> wf_prog prog)"
| "wf_prog (i # prog) = wf_prog prog"

fun c_holds :: "caller_pc \<Rightarrow> bool" where
  "c_holds Idle = False"
| "c_holds (Running f m prog) = holding prog"

fun c_wf :: "caller_pc \<Rightarrow> bool" where
  "c_wf Idle = True"
| "c_wf (Running f m prog) = wf_prog prog"

text \<open>
  \<open>lock_inv\<close>: a thread is inside a critical section exactly when it owns \<open>data_lock\<close> (so
  at most one thread is, and every access to \<open>jobs\<close> is made by the owner of the lock), and
  every caller's remaining statements are well formed.
\<close>

fun holds :: "pool \<Rightarrow> actor \<Rightarrow> bool" where
  "holds s (Worker w) = (w < length (threads s) \<and> w_holds (threads s ! w))"
| "holds s (Caller c) = c_holds (callers s c)"

definition lock_inv :: "pool \<Rightarrow> bool" where
  "lock_inv s \<longleftrightarrow> (\<forall>a. holds s a = (data_lock s = Some a)) \<and> (\<forall>c. c_wf (callers s c))"

text \<open>
  \<open>front_inv\<close>: a worker that has left \<open>cv.wait\<close> has seen a job or the stop flag, and a
  worker about to call \<open>jobs.front()\<close> finds the queue non-empty.
\<close>

definition front_inv :: "pool \<Rightarrow> bool" where
  "front_inv s \<longleftrightarrow>
     (\<forall>w < length (threads s).
        (threads s ! w = W_check \<longrightarrow> jobs s \<noteq> [] \<or> \<not> running s)
        \<and> (threads s ! w = W_front \<longrightarrow> jobs s \<noteq> []))"

text \<open>
  \<open>wakes ts ts'\<close>: the threads \<open>ts'\<close> are the threads \<open>ts\<close> with some blocked ones woken;
  this is all a notification or a spurious wake-up does.
\<close>

definition wakes :: "worker_pc list \<Rightarrow> worker_pc list \<Rightarrow> bool" where
  "wakes ts ts' = list_all2 (\<lambda>pc pc'. pc' = pc \<or> (pc = W_blocked \<and> pc' = W_woken)) ts ts'"

subsection \<open>The queue\<close>

text \<open>\<open>fifo_inv\<close>: what was pushed is what was popped, in the same order, and then the queue.\<close>

definition fifo_inv :: "pool \<Rightarrow> bool" where
  "fifo_inv s \<longleftrightarrow> enqueued s = dequeued s @ jobs s"

definition safe :: "pool \<Rightarrow> bool" where
  "safe s \<longleftrightarrow> lock_inv s \<and> front_inv s \<and> fifo_inv s"

text \<open>The jobs a list of statements will still push, in order (the loop of \<open>run_loop\<close> apart).\<close>

fun emplaces :: "instr list \<Rightarrow> job list" where
  "emplaces [] = []"
| "emplaces (Emplace j # prog) = j # emplaces prog"
| "emplaces (i # prog) = emplaces prog"

text \<open>
  \<open>flight_inv\<close>: every popped job is either held by the worker that popped it (from the pop
  to the return of its callable) or finished; no job is lost or run twice.
\<close>

fun inflight :: "worker_pc \<Rightarrow> job multiset" where
  "inflight (W_unlock j) = {#j#}"
| "inflight (W_invoke j) = {#j#}"
| "inflight (W_release j) = {#j#}"
| "inflight pc = {#}"

definition flying :: "worker_pc list \<Rightarrow> job multiset" where
  "flying ts = sum_list (map inflight ts)"

definition flight_inv :: "pool \<Rightarrow> bool" where
  "flight_inv s \<longleftrightarrow> mset (dequeued s) = flying (threads s) + mset (finished s)"

text \<open>
  The job a worker has popped and not yet called (it calls it after \<open>lock.unlock()\<close>), and
  the jobs so held by a list of threads. \<open>solo_inv\<close>: in a pool of at most one worker the
  jobs are called in the order of the pops; the jobs popped are the jobs called, in the
  order of the calls, and then the job the worker holds, if any.
\<close>

fun pending :: "worker_pc \<Rightarrow> job list" where
  "pending (W_unlock j) = [j]"
| "pending (W_invoke j) = [j]"
| "pending pc = []"

definition held :: "worker_pc list \<Rightarrow> job list" where
  "held ts = concat (map pending ts)"

definition solo_inv :: "pool \<Rightarrow> bool" where
  "solo_inv s \<longleftrightarrow> (length (threads s) \<le> 1 \<longrightarrow> dequeued s = started s @ held (threads s))"

subsection \<open>The semaphores of the blocking calls\<close>

text \<open>
  \<open>sem_inv\<close>: the statements of a call use no semaphore but the call's own; every
  semaphore in use was allocated (lies below \<open>next_sem\<close>); two calls never share one; and
  every job ever pushed releases an allocated semaphore, if any.
\<close>

fun instr_sem :: "instr \<Rightarrow> nat option" where
  "instr_sem (Emplace j) = sem_of j"
| "instr_sem (For_emplace loop_body sem n stop) = Some sem"
| "instr_sem (Acquire sem) = Some sem"
| "instr_sem i = None"

definition sem_inv :: "pool \<Rightarrow> bool" where
  "sem_inv s \<longleftrightarrow>
     (\<forall>c f m prog. callers s c = Running f m prog \<longrightarrow>
        (\<forall>i \<in> set prog. instr_sem i = None \<or> instr_sem i = m))
     \<and> (\<forall>c f sem prog. callers s c = Running f (Some sem) prog \<longrightarrow> sem < next_sem s)
     \<and> (\<forall>c f prog c' f' prog' sem. callers s c = Running f (Some sem) prog
           \<and> callers s c' = Running f' (Some sem) prog' \<longrightarrow> c = c')
     \<and> (\<forall>j \<in> set (enqueued s). \<forall>sem. sem_of j = Some sem \<longrightarrow> sem < next_sem s)"

text \<open>
  \<open>run_inv\<close>, for each caller inside \<open>run_tasks(tasks)\<close> with semaphore \<open>sem\<close>: the wrappers
  of this call pushed so far, followed by those still to push, are the wrapped tasks in
  order; and the count of \<open>sem\<close> plus the number of tasks equals the number of finished
  wrappers of this call plus the acquisitions still to make.
\<close>

fun is_for :: "instr \<Rightarrow> bool" where
  "is_for (For_emplace loop_body sem n stop) = True"
| "is_for i = False"

definition run_frame :: "pool \<Rightarrow> nat list \<Rightarrow> nat \<Rightarrow> instr list \<Rightarrow> bool" where
  "run_frame s tasks sem prog \<longleftrightarrow>
     filter (\<lambda>j. sem_of j = Some sem) (enqueued s) @ emplaces prog
       = map (\<lambda>task. Run_wrapper task sem) tasks
     \<and> sems s sem + length tasks
       = length (filter (\<lambda>j. sem_of j = Some sem) (finished s)) + count_list prog (Acquire sem)
     \<and> (\<forall>i \<in> set prog. \<not> is_for i)"

definition run_inv :: "pool \<Rightarrow> bool" where
  "run_inv s \<longleftrightarrow>
     (\<forall>c tasks sem prog. callers s c = Running (Run_tasks tasks) (Some sem) prog \<longrightarrow>
        run_frame s tasks sem prog)"

definition complete :: "pool \<Rightarrow> bool" where
  "complete s \<longleftrightarrow> safe s \<and> flight_inv s \<and> sem_inv s \<and> run_inv s"

subsection \<open>The destructor\<close>

text \<open>
  \<open>join_inv\<close>: once the destructor has started \<open>running\<close> is false; at \<open>join\<close> number \<open>i\<close>
  the threads before \<open>i\<close> have returned; when it is done, all have.
\<close>

definition join_inv :: "pool \<Rightarrow> bool" where
  "join_inv s \<longleftrightarrow>
     (destructor s \<noteq> D_alive \<longrightarrow> \<not> running s)
     \<and> (\<forall>i. destructor s = D_join i \<longrightarrow> (\<forall>w < i. w < length (threads s) \<longrightarrow> threads s ! w = W_done))
     \<and> (destructor s = D_done \<longrightarrow> (\<forall>w < length (threads s). threads s ! w = W_done))"


subsection \<open>Notifications\<close>

text \<open>
  A statement that notifies \<open>cv\<close>, and a statement that pushes a job. A list of statements
  is \<open>announced\<close> when every push in it has a notification after it.
\<close>

fun notification :: "instr \<Rightarrow> bool" where
  "notification Notify_one = True"
| "notification Notify_all = True"
| "notification i = False"

fun pushes :: "instr \<Rightarrow> bool" where
  "pushes (Emplace j) = True"
| "pushes (For_emplace loop_body sem n stop) = True"
| "pushes i = False"

fun announced :: "instr list \<Rightarrow> bool" where
  "announced [] = True"
| "announced (i # prog) = ((pushes i \<longrightarrow> list_ex notification prog) \<and> announced prog)"

fun c_announced :: "caller_pc \<Rightarrow> bool" where
  "c_announced Idle = True"
| "c_announced (Running f m prog) = announced prog"

text \<open>A caller that has a notification still to send.\<close>

fun notifying :: "caller_pc \<Rightarrow> bool" where
  "notifying Idle = False"
| "notifying (Running f m prog) = list_ex notification prog"

text \<open>
  A worker is \<open>awake\<close> when it will look at the queue (or at the stop flag) before it
  sleeps on \<open>cv\<close>: everywhere but after a false predicate (\<open>W_wait\<close>), asleep
  (\<open>W_blocked\<close>) and after its return (\<open>W_done\<close>).
\<close>

fun awake :: "worker_pc \<Rightarrow> bool" where
  "awake W_wait = False"
| "awake W_blocked = False"
| "awake W_done = False"
| "awake pc = True"

text \<open>
  \<open>deliver_inv\<close>, no wake-up is lost: every caller's remaining statements are announced; a
  worker that has found the predicate false and is about to sleep holds the lock, so the
  queue is still empty; and while the pool runs, if a job is queued and a worker sleeps,
  then a worker is awake or a caller has its notification still to send.
\<close>

definition deliver_inv :: "pool \<Rightarrow> bool" where
  "deliver_inv s \<longleftrightarrow>
     (\<forall>c. c_announced (callers s c))
     \<and> (W_wait \<in> set (threads s) \<longrightarrow> jobs s = [])
     \<and> (running s \<and> jobs s \<noteq> [] \<and> W_blocked \<in> set (threads s) \<longrightarrow>
          list_ex awake (threads s) \<or> (\<exists>c. notifying (callers s c)))"

subsection \<open>What the two revisions are compared on\<close>

text \<open>
  \<open>observe\<close> hides what no user of the class can see. Inside \<open>wait(lock)\<close> a thread is
  asleep (\<open>W_blocked\<close>) or has been woken and waits for the mutex (\<open>W_woken\<close>): both are
  a thread inside \<open>wait\<close>, and a spurious wake-up, which the C++ standard allows at any
  time, leads from the one to the other. Of a caller inside a function, the statements it
  has still to run are hidden; the function, its argument and its semaphore are not.
  Everything else is observed: the flag, the queue, the owner of the lock, the place of
  every worker, the place of the destructor, the semaphores and the four histories.
\<close>

fun view :: "worker_pc \<Rightarrow> worker_pc" where
  "view W_woken = W_blocked"
| "view pc = pc"

fun inside :: "caller_pc \<Rightarrow> caller_pc" where
  "inside Idle = Idle"
| "inside (Running f m prog) = Running f m []"

definition observe :: "pool \<Rightarrow> pool" where
  "observe s = s\<lparr>threads := map view (threads s), callers := (\<lambda>c. inside (callers s c))\<rparr>"

text \<open>
  The calls both revisions have: \<open>detach_task\<close> and \<open>detach_tasks\<close>. A schedule is
  \<open>shared\<close> when it calls no other function.
\<close>

fun shared :: "event \<Rightarrow> bool" where
  "shared (Call c (Detach_task task)) = True"
| "shared (Call c (Detach_tasks tasks)) = True"
| "shared (Call c f) = False"
| "shared e = True"

text \<open>
  \<open>sync p1 p2\<close>: a caller of \<open>ThreadPool.hpp\<close> with the statements \<open>p1\<close> left stands where
  a caller of the later revision with the statements \<open>p2\<close> left stands. Up to the pushes
  the statements are the same; then the first notifies and unlocks, the second unlocks
  and notifies. \<open>frames\<close> lifts this to callers, and \<open>sim\<close> to states: the same
  observation, and every caller in step.
\<close>

inductive sync :: "instr list \<Rightarrow> instr list \<Rightarrow> bool" where
  Locks: "sync p1 p2 \<Longrightarrow> sync (Lock # p1) (Lock # p2)"
| Pushes: "sync p1 p2 \<Longrightarrow> sync (Emplace j # p1) (Emplace j # p2)"
| Swap: "notification i \<Longrightarrow> sync [i, Unlock] [Unlock, i]"
| Sent: "notification i \<Longrightarrow> sync [Unlock] [Unlock, i]"
| Owed: "notification i \<Longrightarrow> sync [] [i]"
| Done: "sync [] []"

fun frames :: "caller_pc \<Rightarrow> caller_pc \<Rightarrow> bool" where
  "frames Idle Idle = True"
| "frames (Running f m p1) (Running g m' p2) = (f = g \<and> m = m' \<and> sync p1 p2)"
| "frames x y = False"

definition sim :: "pool \<Rightarrow> pool \<Rightarrow> bool" where
  "sim s1 s2 \<longleftrightarrow> observe s1 = observe s2 \<and> (\<forall>c. frames (callers s1 c) (callers s2 c))"

text \<open>
  \<open>abreast p1 p2\<close>: a caller of \<open>ThreadPool.hpp\<close> and a caller of the later revision that
  have run equally many statements of the same call. \<open>level\<close> lifts this to states: the
  same observation but for the owner of the lock, every caller abreast, and the same owner
  of the lock unless a caller is at the one place where the revisions differ (the first
  has notified and still holds the lock, the second has unlocked and has still to notify).
\<close>

inductive abreast :: "instr list \<Rightarrow> instr list \<Rightarrow> bool" where
  "abreast p1 p2 \<Longrightarrow> abreast (Lock # p1) (Lock # p2)"
| "abreast p1 p2 \<Longrightarrow> abreast (Emplace j # p1) (Emplace j # p2)"
| "notification i \<Longrightarrow> abreast [i, Unlock] [Unlock, i]"
| "notification i \<Longrightarrow> abreast [Unlock] [i]"
| "abreast [] []"

fun aframes :: "caller_pc \<Rightarrow> caller_pc \<Rightarrow> bool" where
  "aframes Idle Idle = True"
| "aframes (Running f m p1) (Running g m' p2) = (f = g \<and> m = m' \<and> abreast p1 p2)"
| "aframes x y = False"

definition level :: "pool \<Rightarrow> pool \<Rightarrow> bool" where
  "level s1 s2 \<longleftrightarrow>
     observe (s1\<lparr>data_lock := None\<rparr>) = observe (s2\<lparr>data_lock := None\<rparr>)
     \<and> (\<forall>c. aframes (callers s1 c) (callers s2 c))
     \<and> (data_lock s1 = data_lock s2
        \<or> (data_lock s2 = None
           \<and> (\<exists>c f m i. data_lock s1 = Some (Caller c) \<and> callers s1 c = Running f m [Unlock]
                 \<and> callers s2 c = Running f m [i])))"

section \<open>Properties of \<open>reset\<close> and \<open>size\<close>\<close>

lemma spawn_eq: "spawn i n p = p\<lparr>threads := threads p @ replicate (n - i) W_while\<rparr>"
proof (induction i n p rule: spawn.induct)
  case (1 i n p)
  show ?case
  proof (cases "i < n")
    case True
    then have "n - i = Suc (n - Suc i)" by simp
    with True "1" show ?thesis
      by (subst spawn.simps) (simp add: replicate_app_Cons_same)
  next
    case False
    then show ?thesis by (subst spawn.simps) simp
  qed
qed

lemma constructor_no_throw: "fst (reset n new_pool) = Inr ()"
  by (simp add: reset_def new_pool_def)

lemma spawn_v1_eq: "spawn_v1 i n p = p\<lparr>threads := threads p @ replicate (n - i) W_while\<rparr>"
proof (induction i n p rule: spawn_v1.induct)
  case (1 i n p)
  show ?case
  proof (cases "i < n")
    case True
    then have "n - i = Suc (n - Suc i)" by simp
    with True "1" show ?thesis
      by (subst spawn_v1.simps) (simp add: replicate_app_Cons_same)
  next
    case False
    then show ?thesis by (subst spawn_v1.simps) simp
  qed
qed

lemma reset_v1_eq: "reset_v1 n p = reset n p"
  by (simp add: reset_v1_def reset_def spawn_eq spawn_v1_eq)

lemma threads_reset:
  "threads (snd (reset n p)) = threads p @ replicate (n - length (threads p)) W_while"
  by (simp add: reset_def spawn_eq)

lemma reset_frame:
  "snd (reset n p) = p\<lparr>threads := threads p @ replicate (n - length (threads p)) W_while\<rparr>"
  by (simp add: reset_def spawn_eq)

lemma threads_ThreadPool: "threads (ThreadPool n) = replicate n W_while"
  by (simp add: ThreadPool_def threads_reset new_pool_def)

text \<open>
  C1 (as the spec states it, refuted): with a hardware-concurrency hint of zero the
  default constructor leaves a pool without any worker, so \<open>size() \<ge> 1\<close> fails.
\<close>

theorem default_constructor_zero_hint_counterexample:
  "\<not> 1 \<le> size_pool (ThreadPool_default 0)"
  by (simp add: size_pool_def ThreadPool_default_def threads_reset new_pool_def)

text \<open>
  C1 (amended): the default constructor starts exactly as many workers as the
  hardware-concurrency hint says, in both revisions; there is no fallback to one worker.
\<close>

theorem default_constructor_size:
  "size_pool (ThreadPool_default hardware_concurrency) = hardware_concurrency
   \<and> size_pool_v1 (ThreadPool_default_v1 hardware_concurrency) = hardware_concurrency"
  by (simp add: size_pool_def size_pool_v1_def ThreadPool_default_def ThreadPool_default_v1_def
      reset_v1_eq threads_reset new_pool_def)

text \<open>
  C2: \<open>reset\<close> with a count below the current number of threads throws
  \<open>std::runtime_error\<close> and leaves the pool exactly as it was, in both revisions.
\<close>

theorem reset_downscale_rejected:
  "n < size_pool p \<Longrightarrow>
     reset n p = (Inl (Runtime_error ''Cannot downscale thread pool''), p)
     \<and> reset_v1 n p = (Inl (Runtime_error ''Cannot downscale thread pool''), p)"
  by (simp add: reset_v1_eq reset_def size_pool_def)

theorem reset_downscale_rejected_witness:
  "size_pool (ThreadPool 3) = 3
   \<and> reset 1 (ThreadPool 3) = (Inl (Runtime_error ''Cannot downscale thread pool''), ThreadPool 3)
   \<and> reset_v1 1 (ThreadPool 3) = (Inl (Runtime_error ''Cannot downscale thread pool''), ThreadPool 3)"
proof -
  have sz: "size_pool (ThreadPool 3) = 3"
    by (simp add: size_pool_def threads_ThreadPool)
  then have "1 < size_pool (ThreadPool 3)" by simp
  from reset_downscale_rejected [OF this] sz show ?thesis by simp
qed

text \<open>
  C9: \<open>reset\<close> throws exactly when its argument is below the current number of threads;
  with the argument equal to it, \<open>reset\<close> returns normally and the pool is unchanged.
\<close>

theorem reset_throws_iff:
  "(fst (reset n p) = Inl (Runtime_error ''Cannot downscale thread pool'')) = (n < size_pool p)
   \<and> (fst (reset n p) = Inr ()) = (size_pool p \<le> n)
   \<and> reset (size_pool p) p = (Inr (), p)
   \<and> reset_v1 n p = reset n p"
  by (simp add: reset_v1_eq reset_def spawn_eq size_pool_def)

section \<open>The transition system: case rules and invariants\<close>

lemma emplaces_append [simp]: "emplaces (xs @ ys) = emplaces xs @ emplaces ys"
  by (induction xs rule: emplaces.induct) simp_all

lemma emplaces_map_Emplace [simp]: "emplaces (map (\<lambda>task. Emplace (g task)) tasks) = map g tasks"
  by (induction tasks) simp_all

lemma emplaces_replicate_Acquire [simp]: "emplaces (replicate n (Acquire sem)) = []"
  by (induction n) simp_all

lemma worker_loop_cases [consumes 1, case_names While Lock Pred Wait Woken Check_stop Check_go Front Unlock Invoke_plain Invoke_wrapper Release]:
  assumes "worker_loop w s = Some s'"
  obtains
    "w < length (threads s)" "threads s ! w = W_while"
      "s' = s\<lparr>threads := (threads s)[w := (if running s then W_lock else W_done)]\<rparr>"
  | "w < length (threads s)" "threads s ! w = W_lock" "data_lock s = None"
      "s' = s\<lparr>data_lock := Some (Worker w), threads := (threads s)[w := W_pred]\<rparr>"
  | "w < length (threads s)" "threads s ! w = W_pred"
      "s' = s\<lparr>threads := (threads s)[w := (if jobs s \<noteq> [] \<or> \<not> running s then W_check else W_wait)]\<rparr>"
  | "w < length (threads s)" "threads s ! w = W_wait"
      "s' = s\<lparr>data_lock := None, threads := (threads s)[w := W_blocked]\<rparr>"
  | "w < length (threads s)" "threads s ! w = W_woken" "data_lock s = None"
      "s' = s\<lparr>data_lock := Some (Worker w), threads := (threads s)[w := W_pred]\<rparr>"
  | "w < length (threads s)" "threads s ! w = W_check" "\<not> running s"
      "s' = s\<lparr>data_lock := None, threads := (threads s)[w := W_done]\<rparr>"
  | "w < length (threads s)" "threads s ! w = W_check" "running s"
      "s' = s\<lparr>threads := (threads s)[w := W_front]\<rparr>"
  | j js where "w < length (threads s)" "threads s ! w = W_front" "jobs s = j # js"
      "s' = s\<lparr>jobs := js, dequeued := dequeued s @ [j], threads := (threads s)[w := W_unlock j]\<rparr>"
  | j where "w < length (threads s)" "threads s ! w = W_unlock j"
      "s' = s\<lparr>data_lock := None, threads := (threads s)[w := W_invoke j]\<rparr>"
  | j where "w < length (threads s)" "threads s ! w = W_invoke j" "sem_of j = None"
      "s' = s\<lparr>started := started s @ [j], finished := finished s @ [j],
              threads := (threads s)[w := W_while]\<rparr>"
  | j sem where "w < length (threads s)" "threads s ! w = W_invoke j" "sem_of j = Some sem"
      "s' = s\<lparr>started := started s @ [j], threads := (threads s)[w := W_release j]\<rparr>"
  | j where "w < length (threads s)" "threads s ! w = W_release j"
      "s' = s\<lparr>sems := (case sem_of j of None \<Rightarrow> sems s | Some sem \<Rightarrow> (sems s)(sem := Suc (sems s sem))),
              finished := finished s @ [j], threads := (threads s)[w := W_while]\<rparr>"
proof -
  from assms have len: "w < length (threads s)"
    by (simp add: worker_loop_def split: if_splits)
  show ?thesis
  proof (cases "threads s ! w")
    case W_while
    with assms len that(1) show ?thesis by (simp add: worker_loop_def)
  next
    case W_lock
    with assms len that(2) show ?thesis by (simp add: worker_loop_def split: if_splits)
  next
    case W_pred
    with assms len that(3) show ?thesis by (simp add: worker_loop_def)
  next
    case W_wait
    with assms len that(4) show ?thesis by (simp add: worker_loop_def)
  next
    case W_blocked
    with assms len show ?thesis by (simp add: worker_loop_def)
  next
    case W_woken
    with assms len that(5) show ?thesis by (simp add: worker_loop_def split: if_splits)
  next
    case W_check
    with assms len that(6,7) show ?thesis by (auto simp add: worker_loop_def split: if_splits)
  next
    case W_front
    with assms len that(8) show ?thesis by (auto simp add: worker_loop_def split: list.splits)
  next
    case (W_unlock j)
    with assms len that(9) show ?thesis by (simp add: worker_loop_def)
  next
    case (W_invoke j)
    with assms len that(10,11) show ?thesis by (auto simp add: worker_loop_def split: option.splits)
  next
    case (W_release j)
    with assms len that(12) show ?thesis by (simp add: worker_loop_def)
  next
    case W_done
    with assms len show ?thesis by (simp add: worker_loop_def)
  qed
qed

lemma caller_step_cases [consumes 1, case_names Return Lock Unlock Emplace For_more For_exit Notify_one Notify_all Acquire]:
  assumes "caller_step c k s = Some s'"
  obtains
    f m where "callers s c = Running f m []" "s' = s\<lparr>callers := (callers s)(c := Idle)\<rparr>"
  | f m prog where "callers s c = Running f m (Lock # prog)" "data_lock s = None"
      "s' = s\<lparr>data_lock := Some (Caller c), callers := (callers s)(c := Running f m prog)\<rparr>"
  | f m prog where "callers s c = Running f m (Unlock # prog)"
      "s' = s\<lparr>data_lock := None, callers := (callers s)(c := Running f m prog)\<rparr>"
  | f m prog j where "callers s c = Running f m (Emplace j # prog)"
      "s' = s\<lparr>jobs := jobs s @ [j], enqueued := enqueued s @ [j],
              callers := (callers s)(c := Running f m prog)\<rparr>"
  | f m prog loop_body sem n stop where
      "callers s c = Running f m (For_emplace loop_body sem n stop # prog)" "n < stop"
      "s' = s\<lparr>jobs := jobs s @ [Loop_wrapper (loop_arg loop_body n) sem],
              enqueued := enqueued s @ [Loop_wrapper (loop_arg loop_body n) sem],
              callers := (callers s)(c := Running f m
                (For_emplace loop_body sem (Suc n mod 2 ^ induction_bits loop_body) stop # prog))\<rparr>"
  | f m prog loop_body sem n stop where
      "callers s c = Running f m (For_emplace loop_body sem n stop # prog)" "\<not> n < stop"
      "s' = s\<lparr>callers := (callers s)(c := Running f m prog)\<rparr>"
  | f m prog s1 where "callers s c = Running f m (Notify_one # prog)"
      "cv_notify_one k s = Some s1"
      "s' = s1\<lparr>callers := (callers s)(c := Running f m prog)\<rparr>"
  | f m prog where "callers s c = Running f m (Notify_all # prog)"
      "s' = (cv_notify_all s)\<lparr>callers := (callers s)(c := Running f m prog)\<rparr>"
  | f m prog sem where "callers s c = Running f m (Acquire sem # prog)" "0 < sems s sem"
      "s' = s\<lparr>sems := (sems s)(sem := sems s sem - 1),
              callers := (callers s)(c := Running f m prog)\<rparr>"
proof (cases "callers s c")
  case Idle
  with assms show ?thesis by (simp add: caller_step_def)
next
  case (Running f m prog)
  note run = this
  show ?thesis
  proof (cases prog)
    case Nil
    with assms run that(1) show ?thesis by (simp add: caller_step_def)
  next
    case (Cons i rest)
    note cons = this
    show ?thesis
    proof (cases i)
      case Lock
      with assms run cons that(2) show ?thesis
        by (simp add: caller_step_def split: if_splits)
    next
      case Unlock
      with assms run cons that(3) show ?thesis by (simp add: caller_step_def)
    next
      case (Emplace j)
      with assms run cons that(4) show ?thesis by (simp add: caller_step_def)
    next
      case (For_emplace loop_body sem n stop)
      with assms run cons that(5,6) show ?thesis
        by (auto simp add: caller_step_def split: if_splits)
    next
      case Notify_one
      with assms run cons that(7) show ?thesis
        by (auto simp add: caller_step_def split: option.splits)
    next
      case Notify_all
      with assms run cons that(8) show ?thesis by (simp add: caller_step_def)
    next
      case (Acquire sem)
      with assms run cons that(9) show ?thesis
        by (simp add: caller_step_def split: if_splits)
    qed
  qed
qed

lemma lock_inv_owner: "lock_inv s \<Longrightarrow> holds s a \<Longrightarrow> data_lock s = Some a"
  by (simp add: lock_inv_def)

lemma lock_inv_worker_iff:
  "lock_inv s \<Longrightarrow> w < length (threads s) \<Longrightarrow>
     (data_lock s = Some (Worker w)) = w_holds (threads s ! w)"
  by (metis holds.simps(1) lock_inv_def)

lemma lock_inv_caller_iff:
  "lock_inv s \<Longrightarrow> (data_lock s = Some (Caller c)) = c_holds (callers s c)"
  by (metis holds.simps(2) lock_inv_def)

lemma lock_inv_step:
  assumes inv: "lock_inv s"
    and others: "\<And>b. b \<noteq> a \<Longrightarrow> holds s' b = holds s b"
    and mine: "holds s' a = (data_lock s' = Some a)"
    and lock: "data_lock s' = data_lock s \<or> (holds s a \<and> data_lock s' = None)
               \<or> (data_lock s = None \<and> data_lock s' = Some a)"
    and wf: "\<And>c. c_wf (callers s' c)"
  shows "lock_inv s'"
  unfolding lock_inv_def
proof (intro conjI allI)
  fix b
  show "holds s' b = (data_lock s' = Some b)"
  proof (cases "b = a")
    case True
    with mine show ?thesis by simp
  next
    case False
    from inv have sa: "holds s a = (data_lock s = Some a)" and sb: "holds s b = (data_lock s = Some b)"
      by (simp_all add: lock_inv_def)
    from lock show ?thesis
    proof (elim disjE conjE)
      assume "data_lock s' = data_lock s"
      with sb others [OF False] show ?thesis by simp
    next
      assume "holds s a" "data_lock s' = None"
      with sa sb False others [OF False] show ?thesis by simp
    next
      assume "data_lock s = None" "data_lock s' = Some a"
      with sb False others [OF False] show ?thesis by auto
    qed
  qed
next
  fix c show "c_wf (callers s' c)" by (rule wf)
qed

lemma holds_other_worker:
  "threads s' = (threads s)[w := pc] \<Longrightarrow> callers s' = callers s \<Longrightarrow> b \<noteq> Worker w \<Longrightarrow>
     holds s' b = holds s b"
  by (cases b) (auto simp: nth_list_update)

lemma lock_inv_worker:
  assumes "worker_loop w s = Some s'" and inv: "lock_inv s"
  shows "lock_inv s'"
proof -
  have wf: "\<And>c. c_wf (callers s c)" using inv by (simp add: lock_inv_def)
  have own: "w < length (threads s) \<Longrightarrow> (data_lock s = Some (Worker w)) = w_holds (threads s ! w)"
    using inv by (simp add: lock_inv_worker_iff lock_inv_caller_iff)
  from assms(1) show ?thesis
    by (cases rule: worker_loop_cases;
        intro lock_inv_step [OF inv, where a = "Worker w"] holds_other_worker [where w = w];
        simp add: wf own split: if_splits)
qed

lemma wakes_length: "wakes ts ts' \<Longrightarrow> length ts' = length ts"
  by (simp add: wakes_def list_all2_lengthD)

lemma wakes_nth:
  "wakes ts ts' \<Longrightarrow> w < length ts \<Longrightarrow> ts' ! w = ts ! w \<or> (ts ! w = W_blocked \<and> ts' ! w = W_woken)"
  by (simp add: wakes_def list_all2_conv_all_nth)

lemma wakes_refl: "wakes ts ts"
  by (simp add: wakes_def list_all2_refl)

lemma wakes_update:
  "w < length ts \<Longrightarrow> ts ! w = W_blocked \<Longrightarrow> wakes ts (ts[w := W_woken])"
  by (simp add: wakes_def list_all2_conv_all_nth nth_list_update)

lemma wakes_map: "wakes ts (map (\<lambda>pc. if pc = W_blocked then W_woken else pc) ts)"
  by (simp add: wakes_def list_all2_conv_all_nth)

lemma notify_all_wakes:
  "\<exists>ts'. cv_notify_all s = s\<lparr>threads := ts'\<rparr> \<and> wakes (threads s) ts'"
  unfolding cv_notify_all_def using wakes_map by blast

lemma notify_one_wakes:
  assumes "cv_notify_one k s = Some s1"
  shows "\<exists>ts'. s1 = s\<lparr>threads := ts'\<rparr> \<and> wakes (threads s) ts'"
proof (cases "W_blocked \<notin> set (threads s)")
  case True
  with assms have "s1 = s\<lparr>threads := threads s\<rparr>" by (simp add: cv_notify_one_def)
  then show ?thesis using wakes_refl by blast
next
  case False
  with assms have "k < length (threads s)" "threads s ! k = W_blocked"
    "s1 = s\<lparr>threads := (threads s)[k := W_woken]\<rparr>"
    by (auto simp: cv_notify_one_def split: if_splits)
  then show ?thesis using wakes_update by blast
qed

lemma spurious_wakes:
  assumes "spurious_wakeup w s = Some s1"
  shows "\<exists>ts'. s1 = s\<lparr>threads := ts'\<rparr> \<and> wakes (threads s) ts'"
proof -
  from assms have "w < length (threads s)" "threads s ! w = W_blocked"
    "s1 = s\<lparr>threads := (threads s)[w := W_woken]\<rparr>"
    by (auto simp: spurious_wakeup_def split: if_splits)
  then show ?thesis using wakes_update by blast
qed

lemma wakes_w_holds: "wakes ts ts' \<Longrightarrow> w < length ts \<Longrightarrow> w_holds (ts' ! w) = w_holds (ts ! w)"
  using wakes_nth [of ts ts' w] by auto

lemma holds_wakes:
  "wakes (threads s) (threads s') \<Longrightarrow> callers s' = callers s \<Longrightarrow> holds s' b = holds s b"
  by (cases b) (auto simp: wakes_length wakes_w_holds)

lemma holds_other_caller:
  "wakes (threads s) (threads s') \<Longrightarrow> callers s' = (callers s)(c := x) \<Longrightarrow> b \<noteq> Caller c \<Longrightarrow>
     holds s' b = holds s b"
  by (cases b) (auto simp: wakes_length wakes_w_holds)

lemma lock_inv_wakes:
  assumes "lock_inv s" "wakes (threads s) ts'"
  shows "lock_inv (s\<lparr>threads := ts'\<rparr>)"
proof -
  have "\<And>b. holds (s\<lparr>threads := ts'\<rparr>) b = holds s b"
    using assms(2) by (intro holds_wakes) simp_all
  with assms(1) show ?thesis by (simp add: lock_inv_def)
qed

lemma holding_map_Emplace [simp]:
  "holding (map (\<lambda>task. Emplace (g task)) tasks @ prog) = holding prog"
  by (induction tasks) simp_all

lemma wf_prog_map_Emplace [simp]:
  "wf_prog (map (\<lambda>task. Emplace (g task)) tasks @ prog) =
     ((tasks \<noteq> [] \<longrightarrow> holding prog) \<and> wf_prog prog)"
  by (induction tasks) auto

lemma holding_replicate_Acquire [simp]:
  "holding (replicate n (Acquire sem) @ prog) = holding prog"
  by (induction n) simp_all

lemma wf_prog_replicate_Acquire [simp]:
  "wf_prog (replicate n (Acquire sem) @ prog) = wf_prog prog"
  by (induction n) simp_all

lemma holding_replicate_Acquire' [simp]: "holding (replicate n (Acquire sem)) = False"
  using holding_replicate_Acquire [of n sem "[]"] by simp

lemma wf_prog_replicate_Acquire' [simp]: "wf_prog (replicate n (Acquire sem))"
  using wf_prog_replicate_Acquire [of n sem "[]"] by simp

lemma program_wf:
  assumes "program rv f sem = Some prog"
  shows "wf_prog prog \<and> \<not> holding prog"
proof (cases rv)
  case Rev1
  with assms show ?thesis
    by (cases f)
       (auto simp: detach_task_v1_def detach_tasks_v1_def detach_tasks_arr_v1_def split: if_splits)
next
  case Rev2
  with assms show ?thesis
    by (cases f) (auto simp: detach_task_def detach_tasks_def run_tasks_def run_loop_def)
qed

lemma call_cases [consumes 1, case_names Plain_call Blocking_call]:
  assumes "call rv c f s = Some s'"
  obtains prog where "callers s c = Idle" "program rv f (next_sem s) = Some prog" "\<not> blocking f"
      "s' = s\<lparr>callers := (callers s)(c := Running f None prog)\<rparr>"
  | prog where "callers s c = Idle" "program rv f (next_sem s) = Some prog" "blocking f"
      "s' = s\<lparr>callers := (callers s)(c := Running f (Some (next_sem s)) prog),
              sems := (sems s)(next_sem s := 0), next_sem := Suc (next_sem s)\<rparr>"
proof (cases "callers s c")
  case Idle
  with assms obtain prog where p: "program rv f (next_sem s) = Some prog"
    by (auto simp: call_def split: option.splits)
  show ?thesis
  proof (cases "blocking f")
    case True
    with assms Idle p that(2) show ?thesis by (simp add: call_def)
  next
    case False
    with assms Idle p that(1) show ?thesis by (simp add: call_def)
  qed
next
  case (Running g m prog)
  with assms show ?thesis by (simp add: call_def)
qed

lemma lock_inv_call:
  assumes "call rv c f s = Some s'" and inv: "lock_inv s"
  shows "lock_inv s'"
proof -
  have wf: "\<And>c. c_wf (callers s c)" using inv by (simp add: lock_inv_def)
  have own: "(data_lock s = Some (Caller c)) = c_holds (callers s c)"
    using inv by (simp add: lock_inv_caller_iff)
  from assms(1) show ?thesis
  proof (cases rule: call_cases)
    case (Plain_call prog)
    with program_wf [OF Plain_call(2)] wf show ?thesis
      by (intro lock_inv_step [OF inv, where a = "Caller c"] holds_other_caller [where c = c])
         (simp_all add: wakes_refl own)
  next
    case (Blocking_call prog)
    with program_wf [OF Blocking_call(2)] wf show ?thesis
      by (intro lock_inv_step [OF inv, where a = "Caller c"] holds_other_caller [where c = c])
         (simp_all add: wakes_refl own)
  qed
qed

lemma lock_inv_caller_step:
  assumes "caller_step c k s = Some s'" and inv: "lock_inv s"
  shows "lock_inv s'"
proof -
  have wf: "\<And>c. c_wf (callers s c)" using inv by (simp add: lock_inv_def)
  have own: "(data_lock s = Some (Caller c)) = c_holds (callers s c)"
    using inv by (simp add: lock_inv_worker_iff lock_inv_caller_iff)
  from assms(1) show ?thesis
  proof (cases rule: caller_step_cases)
    case (Notify_one f m prog s1)
    from notify_one_wakes [OF Notify_one(2)] obtain ts'
      where "s1 = s\<lparr>threads := ts'\<rparr>" "wakes (threads s) ts'" by blast
    with Notify_one wf [of c] wf own show ?thesis
      by (intro lock_inv_step [OF inv, where a = "Caller c"] holds_other_caller [where c = c])
         simp_all
  next
    case (Notify_all f m prog)
    from notify_all_wakes [of s] obtain ts'
      where "cv_notify_all s = s\<lparr>threads := ts'\<rparr>" "wakes (threads s) ts'" by blast
    with Notify_all wf [of c] wf own show ?thesis
      by (intro lock_inv_step [OF inv, where a = "Caller c"] holds_other_caller [where c = c])
         simp_all
  qed (use wf [of c] wf own in
        \<open>(intro lock_inv_step [OF inv, where a = "Caller c"] holds_other_caller [where c = c];
          simp add: wakes_refl)+\<close>)
qed

lemma lock_inv_spurious:
  assumes "spurious_wakeup w s = Some s'" and inv: "lock_inv s"
  shows "lock_inv s'"
  using spurious_wakes [OF assms(1)] lock_inv_wakes [OF inv] by auto

lemma lock_inv_reset:
  assumes inv: "lock_inv s"
  shows "lock_inv (snd (reset n s))"
proof -
  have "\<And>b. holds (snd (reset n s)) b = holds s b"
  proof -
    fix b show "holds (snd (reset n s)) b = holds s b"
      by (cases b) (auto simp: reset_frame nth_append)
  qed
  with inv show ?thesis by (simp add: lock_inv_def reset_frame)
qed

lemma destructor_cases [consumes 1, case_names Stop Notify Join Finish]:
  assumes "ThreadPool_destructor s = Some s'"
  obtains "destructor s = D_alive" "s' = s\<lparr>running := False, destructor := D_notify\<rparr>"
  | "destructor s = D_notify" "s' = (cv_notify_all s)\<lparr>destructor := D_join 0\<rparr>"
  | i where "destructor s = D_join i" "i < length (threads s)" "threads s ! i = W_done"
      "s' = s\<lparr>destructor := D_join (Suc i)\<rparr>"
  | i where "destructor s = D_join i" "\<not> i < length (threads s)" "s' = s\<lparr>destructor := D_done\<rparr>"
proof (cases "destructor s")
  case D_alive
  with assms that(1) show ?thesis by (simp add: ThreadPool_destructor_def)
next
  case D_notify
  with assms that(2) show ?thesis by (simp add: ThreadPool_destructor_def)
next
  case (D_join i)
  with assms that(3,4) show ?thesis
    by (cases "i < length (threads s)") (auto simp: ThreadPool_destructor_def split: if_splits)
next
  case D_done
  with assms show ?thesis by (simp add: ThreadPool_destructor_def)
qed

lemma holds_frame [simp]:
  "holds (s\<lparr>running := r\<rparr>) a = holds s a"
  "holds (s\<lparr>jobs := js\<rparr>) a = holds s a"
  "holds (s\<lparr>data_lock := l\<rparr>) a = holds s a"
  "holds (s\<lparr>destructor := d\<rparr>) a = holds s a"
  "holds (s\<lparr>sems := sm\<rparr>) a = holds s a"
  "holds (s\<lparr>next_sem := ns\<rparr>) a = holds s a"
  "holds (s\<lparr>enqueued := el\<rparr>) a = holds s a"
  "holds (s\<lparr>dequeued := dl\<rparr>) a = holds s a"
  "holds (s\<lparr>started := sl\<rparr>) a = holds s a"
  "holds (s\<lparr>finished := fl\<rparr>) a = holds s a"
  by (cases a; simp)+

lemma lock_inv_destructor:
  assumes "ThreadPool_destructor s = Some s'" and inv: "lock_inv s"
  shows "lock_inv s'"
  using assms(1)
proof (cases rule: destructor_cases)
  case Notify
  from notify_all_wakes [of s] obtain ts'
    where "cv_notify_all s = s\<lparr>threads := ts'\<rparr>" "wakes (threads s) ts'" by blast
  with Notify lock_inv_wakes [OF inv, of ts'] show ?thesis by (simp add: lock_inv_def)
qed (use inv in \<open>simp_all add: lock_inv_def\<close>)

lemma worker_loop_v1_eq: "worker_loop_v1 w s = worker_loop w s"
  by (simp add: worker_loop_v1_def worker_loop_def)

lemma destructor_v1_eq: "ThreadPool_destructor_v1 s = ThreadPool_destructor s"
  by (simp add: ThreadPool_destructor_v1_def ThreadPool_destructor_def)

lemma step_cases [consumes 1, case_names Work Spurious Call Step Reset Destroy]:
  assumes "step rv e s = Some s'"
  obtains w where "e = Work w" "worker_loop w s = Some s'"
  | w where "e = Spurious w" "spurious_wakeup w s = Some s'"
  | c f where "e = Call c f" "call rv c f s = Some s'"
  | c k where "e = Step c k" "caller_step c k s = Some s'"
  | n where "e = Reset n" "destructor s = D_alive" "s' = snd (reset n s)"
  | "e = Destroy" "ThreadPool_destructor s = Some s'"
proof (cases e)
  case (Work w)
  with assms that(1) show ?thesis
    by (cases rv) (simp_all add: step_def worker_loop_v1_eq)
next
  case (Spurious w)
  with assms that(2) show ?thesis by (simp add: step_def)
next
  case (Call c f)
  with assms that(3) show ?thesis by (simp add: step_def)
next
  case (Step c k)
  with assms that(4) show ?thesis by (simp add: step_def)
next
  case (Reset n)
  with assms that(5) show ?thesis
    by (cases rv) (auto simp: step_def reset_v1_eq split: if_splits)
next
  case Destroy
  with assms that(6) show ?thesis
    by (cases rv) (simp_all add: step_def destructor_v1_eq)
qed

lemma lock_inv_step_event:
  assumes "step rv e s = Some s'" "lock_inv s"
  shows "lock_inv s'"
  using assms
  by (cases rule: step_cases)
     (auto intro: lock_inv_worker lock_inv_spurious lock_inv_call lock_inv_caller_step
        lock_inv_reset lock_inv_destructor)

lemma lock_inv_exclusive: "lock_inv s \<Longrightarrow> holds s a \<Longrightarrow> holds s b \<Longrightarrow> a = b"
  by (metis lock_inv_owner option.inject)

lemma front_inv_wakes:
  assumes "front_inv s" "wakes (threads s) ts'"
  shows "front_inv (s\<lparr>threads := ts'\<rparr>)"
  unfolding front_inv_def
proof (intro allI impI)
  fix w assume "w < length (threads (s\<lparr>threads := ts'\<rparr>))"
  with assms(2) have w: "w < length (threads s)" by (simp add: wakes_length)
  from wakes_nth [OF assms(2) w] assms(1) w
  show "(threads (s\<lparr>threads := ts'\<rparr>) ! w = W_check \<longrightarrow>
          jobs (s\<lparr>threads := ts'\<rparr>) \<noteq> [] \<or> \<not> running (s\<lparr>threads := ts'\<rparr>))
        \<and> (threads (s\<lparr>threads := ts'\<rparr>) ! w = W_front \<longrightarrow> jobs (s\<lparr>threads := ts'\<rparr>) \<noteq> [])"
    by (auto simp: front_inv_def)
qed

lemma front_inv_worker:
  assumes "worker_loop w s = Some s'" and lk: "lock_inv s" and inv: "front_inv s"
  shows "front_inv s'"
  using assms(1)
proof (cases rule: worker_loop_cases)
  case (Front j js)
  have others: "threads s ! w' \<noteq> W_check \<and> threads s ! w' \<noteq> W_front"
    if "w' < length (threads s)" "w' \<noteq> w" for w'
  proof -
    have "holds s (Worker w)" using Front by simp
    moreover have "holds s (Worker w')"
      if "threads s ! w' = W_check \<or> threads s ! w' = W_front"
      using that \<open>w' < length (threads s)\<close> by auto
    ultimately show ?thesis using lock_inv_exclusive [OF lk] \<open>w' \<noteq> w\<close> by blast
  qed
  with Front show ?thesis by (auto simp: front_inv_def nth_list_update)
qed (use inv in \<open>auto simp: front_inv_def nth_list_update\<close>)

lemma front_inv_caller_step:
  assumes "caller_step c k s = Some s'" and inv: "front_inv s"
  shows "front_inv s'"
  using assms(1)
proof (cases rule: caller_step_cases)
  case (Notify_one f m prog s1)
  from notify_one_wakes [OF Notify_one(2)] obtain ts'
    where "s1 = s\<lparr>threads := ts'\<rparr>" "wakes (threads s) ts'" by blast
  with Notify_one front_inv_wakes [OF inv, of ts'] show ?thesis by (simp add: front_inv_def)
next
  case (Notify_all f m prog)
  from notify_all_wakes [of s] obtain ts'
    where "cv_notify_all s = s\<lparr>threads := ts'\<rparr>" "wakes (threads s) ts'" by blast
  with Notify_all front_inv_wakes [OF inv, of ts'] show ?thesis by (simp add: front_inv_def)
qed (use inv in \<open>simp_all add: front_inv_def\<close>)

lemma front_inv_step_event:
  assumes "step rv e s = Some s'" "lock_inv s" and inv: "front_inv s"
  shows "front_inv s'"
  using assms(1)
proof (cases rule: step_cases)
  case (Work w)
  with assms show ?thesis by (auto intro: front_inv_worker)
next
  case (Spurious w)
  with spurious_wakes [of w s s'] front_inv_wakes [OF inv] show ?thesis by auto
next
  case (Call c f)
  from Call(2) show ?thesis
    by (cases rule: call_cases) (use inv in \<open>simp_all add: front_inv_def\<close>)
next
  case (Step c k)
  with inv show ?thesis by (auto intro: front_inv_caller_step)
next
  case (Reset n)
  with inv show ?thesis by (auto simp: front_inv_def reset_frame nth_append)
next
  case Destroy
  from Destroy(2) show ?thesis
  proof (cases rule: destructor_cases)
    case Notify
    from notify_all_wakes [of s] obtain ts'
      where "cv_notify_all s = s\<lparr>threads := ts'\<rparr>" "wakes (threads s) ts'" by blast
    with Notify front_inv_wakes [OF inv, of ts'] show ?thesis by (simp add: front_inv_def)
  qed (use inv in \<open>simp_all add: front_inv_def\<close>)
qed

lemma fifo_inv_step_event:
  assumes "step rv e s = Some s'" and inv: "fifo_inv s"
  shows "fifo_inv s'"
  using assms(1)
proof (cases rule: step_cases)
  case (Work w)
  from Work(2) show ?thesis
    by (cases rule: worker_loop_cases) (use inv in \<open>simp_all add: fifo_inv_def\<close>)
next
  case (Spurious w)
  with spurious_wakes [of w s s'] inv show ?thesis by (auto simp: fifo_inv_def)
next
  case (Call c f)
  from Call(2) show ?thesis
    by (cases rule: call_cases) (use inv in \<open>simp_all add: fifo_inv_def\<close>)
next
  case (Step c k)
  from Step(2) show ?thesis
  proof (cases rule: caller_step_cases)
    case (Notify_one f m prog s1)
    with notify_one_wakes [OF Notify_one(2)] inv show ?thesis by (auto simp: fifo_inv_def)
  next
    case (Notify_all f m prog)
    with notify_all_wakes [of s] inv show ?thesis by (auto simp: fifo_inv_def)
  qed (use inv in \<open>simp_all add: fifo_inv_def\<close>)
next
  case (Reset n)
  with inv show ?thesis by (simp add: fifo_inv_def reset_frame)
next
  case Destroy
  from Destroy(2) show ?thesis
  proof (cases rule: destructor_cases)
    case Notify
    with notify_all_wakes [of s] inv show ?thesis by (auto simp: fifo_inv_def)
  qed (use inv in \<open>simp_all add: fifo_inv_def\<close>)
qed

lemma exec_invariant:
  assumes "exec rv es s = Some s'" "P s"
    and "\<And>e t t'. P t \<Longrightarrow> step rv e t = Some t' \<Longrightarrow> P t'"
  shows "P s'"
  using assms(1,2)
proof (induction es arbitrary: s)
  case Nil
  then show ?case by simp
next
  case (Cons e es)
  then obtain t where "step rv e s = Some t" "exec rv es t = Some s'"
    by (auto split: option.splits)
  with Cons assms(3) show ?case by blast
qed

lemma safe_new: "safe (ThreadPool n)"
proof -
  have "\<And>a. \<not> holds (ThreadPool n) a"
  proof -
    fix a show "\<not> holds (ThreadPool n) a"
      by (cases a) (simp_all add: threads_ThreadPool, simp add: ThreadPool_def reset_frame new_pool_def)
  qed
  then show ?thesis
    by (simp add: safe_def lock_inv_def front_inv_def fifo_inv_def threads_ThreadPool)
       (simp add: ThreadPool_def reset_frame new_pool_def)
qed

lemma safe_step: "safe s \<Longrightarrow> step rv e s = Some s' \<Longrightarrow> safe s'"
  unfolding safe_def
  using lock_inv_step_event front_inv_step_event fifo_inv_step_event by blast

lemma safe_exec: "exec rv es (ThreadPool n) = Some s \<Longrightarrow> safe s"
  using exec_invariant [where P = safe] safe_new safe_step by blast

lemma flying_update:
  "w < length ts \<Longrightarrow> flying (ts[w := pc]) + inflight (ts ! w) = flying ts + inflight pc"
proof (induction ts arbitrary: w)
  case Nil
  then show ?case by simp
next
  case (Cons a ts)
  show ?case
  proof (cases w)
    case 0
    then show ?thesis by (simp add: flying_def ac_simps)
  next
    case (Suc v)
    with Cons have "flying (ts[v := pc]) + inflight (ts ! v) = flying ts + inflight pc" by simp
    then have "inflight a + (flying (ts[v := pc]) + inflight (ts ! v))
        = inflight a + (flying ts + inflight pc)" by simp
    with Suc show ?thesis by (simp add: flying_def ac_simps)
  qed
qed

lemma flying_wakes: "wakes ts ts' \<Longrightarrow> flying ts' = flying ts"
  unfolding wakes_def flying_def
  by (induction rule: list_all2_induct) auto

lemma flying_append_while [simp]: "flying (ts @ replicate n W_while) = flying ts"
  by (induction n) (simp_all add: flying_def)

lemma flight_inv_worker:
  assumes "worker_loop w s = Some s'" and inv: "flight_inv s"
  shows "flight_inv s'"
  using assms(1)
proof (cases rule: worker_loop_cases)
  case While
  with flying_update [of w "threads s" "if running s then W_lock else W_done"] inv
  show ?thesis by (simp add: flight_inv_def)
next
  case Lock
  with flying_update [of w "threads s" W_pred] inv show ?thesis by (simp add: flight_inv_def)
next
  case Pred
  with flying_update [of w "threads s" "if jobs s \<noteq> [] \<or> \<not> running s then W_check else W_wait"] inv
  show ?thesis by (simp add: flight_inv_def)
next
  case Wait
  with flying_update [of w "threads s" W_blocked] inv show ?thesis by (simp add: flight_inv_def)
next
  case Woken
  with flying_update [of w "threads s" W_pred] inv show ?thesis by (simp add: flight_inv_def)
next
  case Check_stop
  with flying_update [of w "threads s" W_done] inv show ?thesis by (simp add: flight_inv_def)
next
  case Check_go
  with flying_update [of w "threads s" W_front] inv show ?thesis by (simp add: flight_inv_def)
next
  case (Front j js)
  with flying_update [of w "threads s" "W_unlock j"] inv show ?thesis by (simp add: flight_inv_def)
next
  case (Unlock j)
  with flying_update [of w "threads s" "W_invoke j"] inv show ?thesis by (simp add: flight_inv_def)
next
  case (Invoke_plain j)
  with flying_update [of w "threads s" W_while] inv show ?thesis
    by (simp add: flight_inv_def)
next
  case (Invoke_wrapper j sem)
  with flying_update [of w "threads s" "W_release j"] inv show ?thesis by (simp add: flight_inv_def)
next
  case (Release j)
  with flying_update [of w "threads s" W_while] inv show ?thesis
    by (simp add: flight_inv_def)
qed

lemma flight_inv_wakes: "flight_inv s \<Longrightarrow> wakes (threads s) ts' \<Longrightarrow> flight_inv (s\<lparr>threads := ts'\<rparr>)"
  by (simp add: flight_inv_def flying_wakes)

lemma flight_inv_step_event:
  assumes "step rv e s = Some s'" and inv: "flight_inv s"
  shows "flight_inv s'"
  using assms(1)
proof (cases rule: step_cases)
  case (Work w)
  with inv show ?thesis by (auto intro: flight_inv_worker)
next
  case (Spurious w)
  with spurious_wakes [of w s s'] flight_inv_wakes [OF inv] show ?thesis by auto
next
  case (Call c f)
  from Call(2) show ?thesis
    by (cases rule: call_cases) (use inv in \<open>simp_all add: flight_inv_def\<close>)
next
  case (Step c k)
  from Step(2) show ?thesis
  proof (cases rule: caller_step_cases)
    case (Notify_one f m prog s1)
    with notify_one_wakes [OF Notify_one(2)] inv show ?thesis
      by (auto simp: flight_inv_def flying_wakes)
  next
    case (Notify_all f m prog)
    with notify_all_wakes [of s] inv show ?thesis by (auto simp: flight_inv_def flying_wakes)
  qed (use inv in \<open>simp_all add: flight_inv_def\<close>)
next
  case (Reset n)
  with inv show ?thesis by (simp add: flight_inv_def reset_frame)
next
  case Destroy
  from Destroy(2) show ?thesis
  proof (cases rule: destructor_cases)
    case Notify
    with notify_all_wakes [of s] inv show ?thesis by (auto simp: flight_inv_def flying_wakes)
  qed (use inv in \<open>simp_all add: flight_inv_def\<close>)
qed

lemma finished_subset_enqueued:
  assumes "fifo_inv s" "flight_inv s"
  shows "set (finished s) \<subseteq> set (enqueued s)"
proof -
  from assms(2) have "mset (finished s) \<subseteq># mset (dequeued s)"
    by (simp add: flight_inv_def)
  then have "set (finished s) \<subseteq> set (dequeued s)"
    by (metis set_mset_mono set_mset_mset)
  with assms(1) show ?thesis by (auto simp: fifo_inv_def)
qed

lemma program_sems:
  assumes "program rv f sem = Some prog" "i \<in> set prog"
  shows "instr_sem i = None \<or> (blocking f \<and> instr_sem i = Some sem)"
proof (cases rv)
  case Rev1
  with assms show ?thesis
    by (cases f)
       (auto simp: detach_task_v1_def detach_tasks_v1_def detach_tasks_arr_v1_def
          split: if_splits dest: in_set_takeD)
next
  case Rev2
  with assms show ?thesis
    by (cases f) (auto simp: detach_task_def detach_tasks_def run_tasks_def run_loop_def)
qed

lemma sem_inv_own:
  "sem_inv s \<Longrightarrow> callers s c = Running f m prog \<Longrightarrow> i \<in> set prog \<Longrightarrow>
     instr_sem i = None \<or> instr_sem i = m"
  unfolding sem_inv_def by blast

lemma sem_inv_bound:
  "sem_inv s \<Longrightarrow> callers s c = Running f (Some sem) prog \<Longrightarrow> sem < next_sem s"
  unfolding sem_inv_def by blast

lemma sem_inv_unique:
  "sem_inv s \<Longrightarrow> callers s c = Running f (Some sem) prog \<Longrightarrow>
     callers s c' = Running f' (Some sem) prog' \<Longrightarrow> c = c'"
  unfolding sem_inv_def by blast

lemma sem_inv_enqueued:
  "sem_inv s \<Longrightarrow> j \<in> set (enqueued s) \<Longrightarrow> sem_of j = Some sem \<Longrightarrow> sem < next_sem s"
  unfolding sem_inv_def by blast

lemma sem_invI:
  assumes "\<And>c f m prog i. callers s c = Running f m prog \<Longrightarrow> i \<in> set prog \<Longrightarrow>
      instr_sem i = None \<or> instr_sem i = m"
    and "\<And>c f sem prog. callers s c = Running f (Some sem) prog \<Longrightarrow> sem < next_sem s"
    and "\<And>c f prog c' f' prog' sem. callers s c = Running f (Some sem) prog \<Longrightarrow>
      callers s c' = Running f' (Some sem) prog' \<Longrightarrow> c = c'"
    and "\<And>j sem. j \<in> set (enqueued s) \<Longrightarrow> sem_of j = Some sem \<Longrightarrow> sem < next_sem s"
  shows "sem_inv s"
  unfolding sem_inv_def using assms by blast

lemma sem_inv_frame:
  assumes "sem_inv s" "callers s' = callers s" "next_sem s' = next_sem s"
    "enqueued s' = enqueued s"
  shows "sem_inv s'"
  using assms by (simp add: sem_inv_def)

lemma sem_inv_advance:
  assumes inv: "sem_inv s" and c: "callers s c = Running f m (i # prog)"
    and s': "callers s' = (callers s)(c := Running f m prog')" "next_sem s' = next_sem s"
    and prog': "\<And>i'. i' \<in> set prog' \<Longrightarrow> i' \<in> set (i # prog) \<or> instr_sem i' = instr_sem i"
    and enq: "enqueued s' = enqueued s \<or>
      (\<exists>j. enqueued s' = enqueued s @ [j] \<and> sem_of j = instr_sem i)"
  shows "sem_inv s'"
proof (rule sem_invI)
  fix c' f' m' p i' assume a: "callers s' c' = Running f' m' p" "i' \<in> set p"
  show "instr_sem i' = None \<or> instr_sem i' = m'"
  proof (cases "c' = c")
    case True
    with a s' have eq: "f' = f" "m' = m" "p = prog'" by simp_all
    from sem_inv_own [OF inv c] have "instr_sem i = None \<or> instr_sem i = m" by simp
    moreover from prog' [of i'] a eq
    have "i' \<in> set (i # prog) \<or> instr_sem i' = instr_sem i" by simp
    ultimately show ?thesis using sem_inv_own [OF inv c, of i'] eq by auto
  next
    case False
    with a s' have "callers s c' = Running f' m' p" by simp
    from sem_inv_own [OF inv this a(2)] show ?thesis .
  qed
next
  fix c' f' sem p assume a: "callers s' c' = Running f' (Some sem) p"
  then obtain p0 where "callers s c' = Running f' (Some sem) p0"
    using c s' by (cases "c' = c") auto
  from sem_inv_bound [OF inv this] s' show "sem < next_sem s'" by simp
next
  fix c1 f1 p1 c2 f2 p2 sem
  assume a: "callers s' c1 = Running f1 (Some sem) p1" "callers s' c2 = Running f2 (Some sem) p2"
  from a(1) obtain q1 where q1: "callers s c1 = Running f1 (Some sem) q1"
    using c s' by (cases "c1 = c") auto
  from a(2) obtain q2 where q2: "callers s c2 = Running f2 (Some sem) q2"
    using c s' by (cases "c2 = c") auto
  from sem_inv_unique [OF inv q1 q2] show "c1 = c2" .
next
  fix j sem assume j: "j \<in> set (enqueued s')" "sem_of j = Some sem"
  from enq show "sem < next_sem s'"
  proof
    assume "enqueued s' = enqueued s"
    with j sem_inv_enqueued [OF inv, of j sem] s' show ?thesis by simp
  next
    assume "\<exists>j. enqueued s' = enqueued s @ [j] \<and> sem_of j = instr_sem i"
    then obtain j' where j': "enqueued s' = enqueued s @ [j']" "sem_of j' = instr_sem i" by blast
    show ?thesis
    proof (cases "j = j'")
      case True
      with j j' have "instr_sem i = Some sem" by simp
      moreover from sem_inv_own [OF inv c, of i] have "instr_sem i = None \<or> instr_sem i = m"
        by simp
      ultimately have "callers s c = Running f (Some sem) (i # prog)" using c by simp
      from sem_inv_bound [OF inv this] s' show ?thesis by simp
    next
      case False
      with j j' have "j \<in> set (enqueued s)" by simp
      from sem_inv_enqueued [OF inv this j(2)] s' show ?thesis by simp
    qed
  qed
qed

lemma sem_inv_idle:
  assumes inv: "sem_inv s" and s': "callers s' = (callers s)(c := Idle)"
    "next_sem s' = next_sem s" "enqueued s' = enqueued s"
  shows "sem_inv s'"
proof (rule sem_invI)
  fix c' f' m' p i' assume a: "callers s' c' = Running f' m' p" "i' \<in> set p"
  with s' have "callers s c' = Running f' m' p" by (cases "c' = c") auto
  from sem_inv_own [OF inv this a(2)] show "instr_sem i' = None \<or> instr_sem i' = m'" .
next
  fix c' f' sem p assume "callers s' c' = Running f' (Some sem) p"
  with s' have "callers s c' = Running f' (Some sem) p" by (cases "c' = c") auto
  from sem_inv_bound [OF inv this] s' show "sem < next_sem s'" by simp
next
  fix c1 f1 p1 c2 f2 p2 sem
  assume a: "callers s' c1 = Running f1 (Some sem) p1" "callers s' c2 = Running f2 (Some sem) p2"
  from a(1) s' have q1: "callers s c1 = Running f1 (Some sem) p1" by (cases "c1 = c") auto
  from a(2) s' have q2: "callers s c2 = Running f2 (Some sem) p2" by (cases "c2 = c") auto
  from sem_inv_unique [OF inv q1 q2] show "c1 = c2" .
next
  fix j sem assume "j \<in> set (enqueued s')" "sem_of j = Some sem"
  with sem_inv_enqueued [OF inv, of j sem] s' show "sem < next_sem s'" by simp
qed

lemma sem_inv_call:
  assumes "call rv c f s = Some s'" and inv: "sem_inv s"
  shows "sem_inv s'"
  using assms(1)
proof (cases rule: call_cases)
  case (Plain_call prog)
  show ?thesis
  proof (rule sem_invI)
    fix c' f' m' p i' assume a: "callers s' c' = Running f' m' p" "i' \<in> set p"
    show "instr_sem i' = None \<or> instr_sem i' = m'"
    proof (cases "c' = c")
      case True
      with a Plain_call have "p = prog" by simp
      with program_sems [OF Plain_call(2), of i'] a Plain_call(3) show ?thesis by simp
    next
      case False
      with a Plain_call have "callers s c' = Running f' m' p" by simp
      from sem_inv_own [OF inv this a(2)] show ?thesis .
    qed
  next
    fix c' f' sem p assume a: "callers s' c' = Running f' (Some sem) p"
    with Plain_call have "callers s c' = Running f' (Some sem) p" by (cases "c' = c") auto
    from sem_inv_bound [OF inv this] Plain_call show "sem < next_sem s'" by simp
  next
    fix c1 f1 p1 c2 f2 p2 sem
    assume a: "callers s' c1 = Running f1 (Some sem) p1" "callers s' c2 = Running f2 (Some sem) p2"
    from a(1) Plain_call have q1: "callers s c1 = Running f1 (Some sem) p1"
      by (cases "c1 = c") auto
    from a(2) Plain_call have q2: "callers s c2 = Running f2 (Some sem) p2"
      by (cases "c2 = c") auto
    from sem_inv_unique [OF inv q1 q2] show "c1 = c2" .
  next
    fix j sem assume "j \<in> set (enqueued s')" "sem_of j = Some sem"
    with sem_inv_enqueued [OF inv, of j sem] Plain_call show "sem < next_sem s'" by simp
  qed
next
  case (Blocking_call prog)
  have old: "sem < next_sem s" if "callers s c' = Running f' (Some sem) p" for c' f' sem p
    using sem_inv_bound [OF inv that] .
  show ?thesis
  proof (rule sem_invI)
    fix c' f' m' p i' assume a: "callers s' c' = Running f' m' p" "i' \<in> set p"
    show "instr_sem i' = None \<or> instr_sem i' = m'"
    proof (cases "c' = c")
      case True
      with a Blocking_call have "p = prog" "m' = Some (next_sem s)" by simp_all
      with program_sems [OF Blocking_call(2), of i'] a show ?thesis by auto
    next
      case False
      with a Blocking_call have "callers s c' = Running f' m' p" by simp
      from sem_inv_own [OF inv this a(2)] show ?thesis .
    qed
  next
    fix c' f' sem p assume a: "callers s' c' = Running f' (Some sem) p"
    show "sem < next_sem s'"
    proof (cases "c' = c")
      case True
      with a Blocking_call show ?thesis by simp
    next
      case False
      with a Blocking_call have "callers s c' = Running f' (Some sem) p" by simp
      from old [OF this] Blocking_call show ?thesis by simp
    qed
  next
    fix c1 f1 p1 c2 f2 p2 sem
    assume a: "callers s' c1 = Running f1 (Some sem) p1" "callers s' c2 = Running f2 (Some sem) p2"
    show "c1 = c2"
    proof (cases "c1 = c")
      case c1: True
      with a Blocking_call have sem: "sem = next_sem s" by simp
      show ?thesis
      proof (rule ccontr)
        assume "c1 \<noteq> c2"
        with c1 a Blocking_call have "callers s c2 = Running f2 (Some sem) p2" by simp
        from old [OF this] sem show False by simp
      qed
    next
      case c1: False
      with a Blocking_call have q1: "callers s c1 = Running f1 (Some sem) p1" by simp
      show ?thesis
      proof (cases "c2 = c")
        case True
        with a Blocking_call have "sem = next_sem s" by simp
        with old [OF q1] show ?thesis by simp
      next
        case False
        with a Blocking_call have q2: "callers s c2 = Running f2 (Some sem) p2" by simp
        from sem_inv_unique [OF inv q1 q2] show ?thesis .
      qed
    qed
  next
    fix j sem assume "j \<in> set (enqueued s')" "sem_of j = Some sem"
    with sem_inv_enqueued [OF inv, of j sem] Blocking_call show "sem < next_sem s'" by simp
  qed
qed

lemma sem_inv_caller_step:
  assumes "caller_step c k s = Some s'" and inv: "sem_inv s"
  shows "sem_inv s'"
  using assms(1)
proof (cases rule: caller_step_cases)
  case (Return f m)
  then show ?thesis by (intro sem_inv_idle [OF inv, where c = c]) simp_all
next
  case (Lock f m prog)
  then show ?thesis
    by (intro sem_inv_advance [OF inv, where c = c and prog' = prog]) auto
next
  case (Unlock f m prog)
  then show ?thesis
    by (intro sem_inv_advance [OF inv, where c = c and prog' = prog]) auto
next
  case (Emplace f m prog j)
  then show ?thesis
    by (intro sem_inv_advance [OF inv, where c = c and prog' = prog]) auto
next
  case (For_more f m prog loop_body sem n stop)
  then show ?thesis
    by (intro sem_inv_advance [OF inv, where c = c
          and prog' = "For_emplace loop_body sem (Suc n mod 2 ^ induction_bits loop_body) stop # prog"])
       auto
next
  case (For_exit f m prog loop_body sem n stop)
  then show ?thesis
    by (intro sem_inv_advance [OF inv, where c = c and prog' = prog]) auto
next
  case (Notify_one f m prog s1)
  from notify_one_wakes [OF Notify_one(2)] obtain ts' where "s1 = s\<lparr>threads := ts'\<rparr>" by blast
  with Notify_one show ?thesis
    by (intro sem_inv_advance [OF inv, where c = c and prog' = prog]) auto
next
  case (Notify_all f m prog)
  from notify_all_wakes [of s] obtain ts' where "cv_notify_all s = s\<lparr>threads := ts'\<rparr>" by blast
  with Notify_all show ?thesis
    by (intro sem_inv_advance [OF inv, where c = c and prog' = prog]) auto
next
  case (Acquire f m prog sem)
  then show ?thesis
    by (intro sem_inv_advance [OF inv, where c = c and prog' = prog]) auto
qed

lemma sem_inv_step_event:
  assumes "step rv e s = Some s'" and inv: "sem_inv s"
  shows "sem_inv s'"
  using assms(1)
proof (cases rule: step_cases)
  case (Work w)
  from Work(2) show ?thesis
    by (cases rule: worker_loop_cases) (rule sem_inv_frame [OF inv]; simp)+
next
  case (Spurious w)
  from spurious_wakes [OF Spurious(2)] obtain ts' where "s' = s\<lparr>threads := ts'\<rparr>" by blast
  then show ?thesis by (intro sem_inv_frame [OF inv]) simp_all
next
  case (Call c f)
  with inv show ?thesis by (auto intro: sem_inv_call)
next
  case (Step c k)
  with inv show ?thesis by (auto intro: sem_inv_caller_step)
next
  case (Reset n)
  then show ?thesis by (intro sem_inv_frame [OF inv]) (simp_all add: reset_frame)
next
  case Destroy
  from Destroy(2) show ?thesis
  proof (cases rule: destructor_cases)
    case Notify
    from notify_all_wakes [of s] obtain ts' where "cv_notify_all s = s\<lparr>threads := ts'\<rparr>" by blast
    with Notify show ?thesis by (intro sem_inv_frame [OF inv]) simp_all
  qed (rule sem_inv_frame [OF inv]; simp)+
qed

lemma run_invD:
  "run_inv s \<Longrightarrow> callers s c = Running (Run_tasks tasks) (Some sem) prog \<Longrightarrow>
     run_frame s tasks sem prog"
  unfolding run_inv_def by blast

lemma count_list_map_Emplace [simp]:
  "count_list (map (\<lambda>task. Emplace (g task)) tasks) (Acquire sem) = 0"
  by (induction tasks) simp_all

lemma count_list_replicate_same [simp]: "count_list (replicate n x) x = n"
  by (induction n) simp_all

lemma not_for_map_Emplace [simp]: "i \<in> set (map (\<lambda>task. Emplace (g task)) tasks) \<Longrightarrow> \<not> is_for i"
  by auto

lemma run_frame_new:
  assumes fresh: "\<And>j. j \<in> set (enqueued s) \<Longrightarrow> sem_of j \<noteq> Some sem"
    and fin: "set (finished s) \<subseteq> set (enqueued s)"
    and s': "enqueued s' = enqueued s" "finished s' = finished s" "sems s' sem = 0"
  shows "run_frame s' tasks sem (run_tasks sem tasks)"
proof -
  have "filter (\<lambda>j. sem_of j = Some sem) (enqueued s) = []"
    using fresh by (simp add: filter_empty_conv)
  moreover have "filter (\<lambda>j. sem_of j = Some sem) (finished s) = []"
    using fresh fin by (auto simp: filter_empty_conv)
  ultimately show ?thesis using s'
    by (auto simp: run_frame_def run_tasks_def)
qed

lemma run_inv_worker:
  assumes "worker_loop w s = Some s'" and inv: "run_inv s"
  shows "run_inv s'"
  unfolding run_inv_def
proof (intro allI impI)
  fix c tasks sem prog
  assume fr': "callers s' c = Running (Run_tasks tasks) (Some sem) prog"
  from assms(1) have "callers s' = callers s"
    by (cases rule: worker_loop_cases) simp_all
  with fr' inv have rf: "run_frame s tasks sem prog" by (simp add: run_invD)
  from assms(1) show "run_frame s' tasks sem prog"
  proof (cases rule: worker_loop_cases)
    case (Invoke_plain j)
    with rf show ?thesis by (simp add: run_frame_def)
  next
    case (Release j)
    with rf show ?thesis by (cases "sem_of j") (auto simp: run_frame_def)
  qed (use rf in \<open>simp_all add: run_frame_def\<close>)
qed

lemma run_inv_frame:
  assumes "run_inv s" "callers s' = callers s" "enqueued s' = enqueued s"
    "finished s' = finished s" "sems s' = sems s"
  shows "run_inv s'"
  using assms by (simp add: run_inv_def run_frame_def)

lemma run_inv_call:
  assumes "call rv c f s = Some s'" and sm: "sem_inv s" and ff: "fifo_inv s"
    and fl: "flight_inv s" and inv: "run_inv s"
  shows "run_inv s'"
  unfolding run_inv_def
proof (intro allI impI)
  fix c' tasks sem prog
  assume fr': "callers s' c' = Running (Run_tasks tasks) (Some sem) prog"
  have other: "run_frame s' tasks sem prog"
    if "c' \<noteq> c" "callers s' = (callers s)(c := x)" "enqueued s' = enqueued s"
      "finished s' = finished s" "\<And>m. m < next_sem s \<Longrightarrow> sems s' m = sems s m" for x
  proof -
    from that fr' have fr: "callers s c' = Running (Run_tasks tasks) (Some sem) prog" by simp
    from sem_inv_bound [OF sm fr] that have "sems s' sem = sems s sem" by simp
    with that run_invD [OF inv fr] show ?thesis by (simp add: run_frame_def)
  qed
  from assms(1) show "run_frame s' tasks sem prog"
  proof (cases rule: call_cases)
    case (Plain_call p)
    show ?thesis
    proof (cases "c' = c")
      case True
      with fr' Plain_call show ?thesis by simp
    next
      case False
      with Plain_call show ?thesis by (intro other) simp_all
    qed
  next
    case (Blocking_call p)
    show ?thesis
    proof (cases "c' = c")
      case True
      with fr' Blocking_call have eq: "f = Run_tasks tasks" "sem = next_sem s" "p = prog"
        by simp_all
      with Blocking_call(2) have prog: "prog = run_tasks sem tasks"
        by (cases rv) simp_all
      have "sem_of j \<noteq> Some sem" if "j \<in> set (enqueued s)" for j
        using sem_inv_enqueued [OF sm that, of sem] eq by auto
      moreover note finished_subset_enqueued [OF ff fl]
      ultimately show ?thesis unfolding prog using Blocking_call eq
        by (intro run_frame_new [where s = s]) simp_all
    next
      case False
      with Blocking_call show ?thesis by (intro other) simp_all
    qed
  qed
qed

lemma run_inv_caller_step:
  assumes st: "caller_step c k s = Some s'" and sm: "sem_inv s" and inv: "run_inv s"
  shows "run_inv s'"
  unfolding run_inv_def
proof (intro allI impI)
  fix c' tasks sem prog
  assume fr': "callers s' c' = Running (Run_tasks tasks) (Some sem) prog"
  show "run_frame s' tasks sem prog"
  proof (cases "c' = c")
    case False
    have upd: "\<exists>x. callers s' = (callers s)(c := x)"
      using st
    proof (cases rule: caller_step_cases)
      case (Notify_one f m p s1)
      with notify_one_wakes [OF Notify_one(2)] show ?thesis by auto
    next
      case (Notify_all f m p)
      with notify_all_wakes [of s] show ?thesis by auto
    qed auto
    with fr' False have fr: "callers s c' = Running (Run_tasks tasks) (Some sem) prog" by auto
    from run_invD [OF inv fr] have rf: "run_frame s tasks sem prog" .
    have foreign: "instr_sem i \<noteq> Some sem" if "callers s c = Running f m p" "i \<in> set p" for f m p i
    proof
      assume "instr_sem i = Some sem"
      with sem_inv_own [OF sm that] have "callers s c = Running f (Some sem) p" using that by simp
      from sem_inv_unique [OF sm this fr] False show False by simp
    qed
    from st show ?thesis
    proof (cases rule: caller_step_cases)
      case (Emplace f m p j)
      with foreign [OF Emplace(1), of "Emplace j"] rf show ?thesis by (simp add: run_frame_def)
    next
      case (For_more f m p loop_body sem0 n stop)
      with foreign [OF For_more(1), of "For_emplace loop_body sem0 n stop"] rf show ?thesis
        by (simp add: run_frame_def)
    next
      case (Notify_one f m p s1)
      with notify_one_wakes [OF Notify_one(2)] rf show ?thesis by (auto simp: run_frame_def)
    next
      case (Notify_all f m p)
      with notify_all_wakes [of s] rf show ?thesis by (auto simp: run_frame_def)
    next
      case (Acquire f m p x)
      with foreign [OF Acquire(1), of "Acquire x"] rf show ?thesis by (simp add: run_frame_def)
    qed (use rf in \<open>simp_all add: run_frame_def\<close>)
  next
    case True
    from st show ?thesis
    proof (cases rule: caller_step_cases)
      case (Return f m)
      with fr' True show ?thesis by simp
    next
      case (Lock f m p)
      with fr' True have "callers s c = Running (Run_tasks tasks) (Some sem) (Lock # prog)" by simp
      from run_invD [OF inv this] Lock show ?thesis by (simp add: run_frame_def)
    next
      case (Unlock f m p)
      with fr' True have "callers s c = Running (Run_tasks tasks) (Some sem) (Unlock # prog)" by simp
      from run_invD [OF inv this] Unlock show ?thesis by (simp add: run_frame_def)
    next
      case (Emplace f m p j)
      with fr' True have "callers s c = Running (Run_tasks tasks) (Some sem) (Emplace j # prog)"
        by simp
      from run_invD [OF inv this] have rf: "run_frame s tasks sem (Emplace j # prog)" .
      then have "j \<in> set (map (\<lambda>task. Run_wrapper task sem) tasks)"
        unfolding run_frame_def by (metis emplaces.simps(2) in_set_conv_decomp)
      then have "sem_of j = Some sem" by auto
      with rf Emplace show ?thesis by (simp add: run_frame_def)
    next
      case (For_more f m p loop_body sem0 n stop)
      with fr' True have "callers s c = Running (Run_tasks tasks) (Some sem)
          (For_emplace loop_body sem0 n stop # p)" by simp
      from run_invD [OF inv this] show ?thesis by (simp add: run_frame_def)
    next
      case (For_exit f m p loop_body sem0 n stop)
      with fr' True have "callers s c = Running (Run_tasks tasks) (Some sem)
          (For_emplace loop_body sem0 n stop # p)" by simp
      from run_invD [OF inv this] show ?thesis by (simp add: run_frame_def)
    next
      case (Notify_one f m p s1)
      with fr' True notify_one_wakes [OF Notify_one(2)]
      have "callers s c = Running (Run_tasks tasks) (Some sem) (Notify_one # prog)" by auto
      from run_invD [OF inv this] Notify_one notify_one_wakes [OF Notify_one(2)] show ?thesis
        by (auto simp: run_frame_def)
    next
      case (Notify_all f m p)
      with fr' True notify_all_wakes [of s]
      have "callers s c = Running (Run_tasks tasks) (Some sem) (Notify_all # prog)" by auto
      from run_invD [OF inv this] Notify_all notify_all_wakes [of s] show ?thesis
        by (auto simp: run_frame_def)
    next
      case (Acquire f m p x)
      with fr' True have fr: "callers s c = Running (Run_tasks tasks) (Some sem) (Acquire x # prog)"
        by simp
      from sem_inv_own [OF sm fr, of "Acquire x"] have "x = sem" by simp
      with run_invD [OF inv fr] Acquire show ?thesis by (simp add: run_frame_def)
    qed
  qed
qed

lemma run_inv_step_event:
  assumes "step rv e s = Some s'" and "sem_inv s" "fifo_inv s" "flight_inv s"
    and inv: "run_inv s"
  shows "run_inv s'"
  using assms(1)
proof (cases rule: step_cases)
  case (Work w)
  with inv show ?thesis by (auto intro: run_inv_worker)
next
  case (Spurious w)
  from spurious_wakes [OF Spurious(2)] obtain ts' where "s' = s\<lparr>threads := ts'\<rparr>" by blast
  then show ?thesis by (intro run_inv_frame [OF inv]) simp_all
next
  case (Call c f)
  with assms show ?thesis by (auto intro: run_inv_call)
next
  case (Step c k)
  with assms show ?thesis by (auto intro: run_inv_caller_step)
next
  case (Reset n)
  then show ?thesis by (intro run_inv_frame [OF inv]) (simp_all add: reset_frame)
next
  case Destroy
  from Destroy(2) show ?thesis
  proof (cases rule: destructor_cases)
    case Notify
    from notify_all_wakes [of s] obtain ts' where "cv_notify_all s = s\<lparr>threads := ts'\<rparr>" by blast
    with Notify show ?thesis by (intro run_inv_frame [OF inv]) simp_all
  qed (rule run_inv_frame [OF inv]; simp)+
qed

lemma complete_new: "complete (ThreadPool n)"
proof -
  have "flight_inv (ThreadPool n)"
    by (simp add: flight_inv_def threads_ThreadPool flying_append_while [of "[]", simplified])
       (simp add: ThreadPool_def reset_frame new_pool_def flying_def)
  moreover have "sem_inv (ThreadPool n)" "run_inv (ThreadPool n)"
    by (simp_all add: sem_inv_def run_inv_def ThreadPool_def reset_frame new_pool_def)
  ultimately show ?thesis by (simp add: complete_def safe_new)
qed

lemma complete_step: "complete s \<Longrightarrow> step rv e s = Some s' \<Longrightarrow> complete s'"
  unfolding complete_def
  using safe_step flight_inv_step_event sem_inv_step_event run_inv_step_event safe_def
  by metis

lemma complete_exec: "exec rv es (ThreadPool n) = Some s \<Longrightarrow> complete s"
  using exec_invariant [where P = complete] complete_new complete_step by blast

lemma held_wakes: "wakes ts ts' \<Longrightarrow> held ts' = held ts"
  unfolding wakes_def held_def
  by (induction rule: list_all2_induct) auto

lemma held_append_while [simp]: "held (ts @ replicate n W_while) = held ts"
  by (induction n) (simp_all add: held_def replicate_app_Cons_same)

lemma held_solo:
  "w < length ts \<Longrightarrow> length ts \<le> 1 \<Longrightarrow> held ts = pending (ts ! w)"
  "w < length ts \<Longrightarrow> length ts \<le> 1 \<Longrightarrow> held (ts[w := pc]) = pending pc"
  by (cases ts; auto simp: held_def)+

lemma solo_inv_worker:
  assumes "worker_loop w s = Some s'" and inv: "solo_inv s"
  shows "solo_inv s'"
proof -
  from assms(1) have w: "w < length (threads s)"
    by (simp add: worker_loop_def split: if_splits)
  have h: "held (threads s) = pending (threads s ! w)" if "length (threads s) \<le> Suc 0"
    using that w by (simp add: held_solo)
  have u: "held ((threads s)[w := pc]) = pending pc" if "length (threads s) \<le> Suc 0" for pc
    using that w by (simp add: held_solo)
  from assms(1) show ?thesis
    by (cases rule: worker_loop_cases) (use inv in \<open>auto simp: solo_inv_def h u\<close>)
qed

lemma solo_inv_wakes: "solo_inv s \<Longrightarrow> wakes (threads s) ts' \<Longrightarrow> solo_inv (s\<lparr>threads := ts'\<rparr>)"
  by (simp add: solo_inv_def held_wakes wakes_length)

lemma solo_inv_step_event:
  assumes "step rv e s = Some s'" and inv: "solo_inv s"
  shows "solo_inv s'"
  using assms(1)
proof (cases rule: step_cases)
  case (Work w)
  with inv show ?thesis by (auto intro: solo_inv_worker)
next
  case (Spurious w)
  with spurious_wakes [of w s s'] solo_inv_wakes [OF inv] show ?thesis by auto
next
  case (Call c f)
  from Call(2) show ?thesis
    by (cases rule: call_cases) (use inv in \<open>simp_all add: solo_inv_def\<close>)
next
  case (Step c k)
  from Step(2) show ?thesis
  proof (cases rule: caller_step_cases)
    case (Notify_one f m prog s1)
    with notify_one_wakes [OF Notify_one(2)] inv show ?thesis
      by (auto simp: solo_inv_def held_wakes wakes_length)
  next
    case (Notify_all f m prog)
    with notify_all_wakes [of s] inv show ?thesis
      by (auto simp: solo_inv_def held_wakes wakes_length)
  qed (use inv in \<open>simp_all add: solo_inv_def\<close>)
next
  case (Reset n)
  with inv show ?thesis by (simp add: solo_inv_def reset_frame)
next
  case Destroy
  from Destroy(2) show ?thesis
  proof (cases rule: destructor_cases)
    case Notify
    with notify_all_wakes [of s] inv show ?thesis
      by (auto simp: solo_inv_def held_wakes wakes_length)
  qed (use inv in \<open>simp_all add: solo_inv_def\<close>)
qed

lemma solo_inv_new: "solo_inv (ThreadPool n)"
  by (simp add: solo_inv_def threads_ThreadPool held_def)
     (simp add: ThreadPool_def reset_frame new_pool_def)

lemma solo_inv_exec: "exec rv es (ThreadPool n) = Some s \<Longrightarrow> solo_inv s"
  using exec_invariant [where P = solo_inv] solo_inv_new solo_inv_step_event by blast

text \<open>No wake-up is lost: \<open>deliver_inv\<close> holds in every reachable state.\<close>

lemma notification_map_Emplace [simp]:
  "list_ex notification (map (\<lambda>task. Emplace (g task)) tasks @ prog) = list_ex notification prog"
  by (induction tasks) simp_all

lemma announced_map_Emplace [simp]:
  "announced (map (\<lambda>task. Emplace (g task)) tasks @ prog)
     = ((tasks \<noteq> [] \<longrightarrow> list_ex notification prog) \<and> announced prog)"
  by (induction tasks) auto

lemma announced_replicate_Acquire [simp]: "announced (replicate n (Acquire sem))"
  by (induction n) simp_all

lemma program_announced:
  assumes "program rv f sem = Some prog"
  shows "announced prog"
proof (cases rv)
  case Rev1
  with assms show ?thesis
    by (cases f)
       (auto simp: detach_task_v1_def detach_tasks_v1_def detach_tasks_arr_v1_def split: if_splits)
next
  case Rev2
  with assms show ?thesis
    by (cases f) (auto simp: detach_task_def detach_tasks_def run_tasks_def run_loop_def)
qed

lemma wakes_wait: "wakes ts ts' \<Longrightarrow> (W_wait \<in> set ts') = (W_wait \<in> set ts)"
  unfolding wakes_def by (induction rule: list_all2_induct) auto


lemma deliver_invI:
  assumes "\<And>c. c_announced (callers s c)"
    and "W_wait \<in> set (threads s) \<Longrightarrow> jobs s = []"
    and "running s \<Longrightarrow> jobs s \<noteq> [] \<Longrightarrow> W_blocked \<in> set (threads s) \<Longrightarrow>
         list_ex awake (threads s) \<or> (\<exists>c. notifying (callers s c))"
  shows "deliver_inv s"
  using assms unfolding deliver_inv_def by blast

lemma deliver_inv_announced: "deliver_inv s \<Longrightarrow> c_announced (callers s c)"
  by (simp add: deliver_inv_def)

lemma deliver_inv_wait: "deliver_inv s \<Longrightarrow> W_wait \<in> set (threads s) \<Longrightarrow> jobs s = []"
  by (simp add: deliver_inv_def)

lemma deliver_inv_wake:
  "deliver_inv s \<Longrightarrow> running s \<Longrightarrow> jobs s \<noteq> [] \<Longrightarrow> W_blocked \<in> set (threads s) \<Longrightarrow>
     list_ex awake (threads s) \<or> (\<exists>c. notifying (callers s c))"
  by (simp add: deliver_inv_def)

lemma awake_update: "w < length ts \<Longrightarrow> awake pc \<Longrightarrow> list_ex awake (ts[w := pc])"
  by (auto simp: list_ex_iff set_update_memI)

lemma wait_update: "W_wait \<in> set (ts[w := pc]) \<Longrightarrow> pc \<noteq> W_wait \<Longrightarrow> W_wait \<in> set ts"
  using set_update_subset_insert [of ts w pc] by auto

lemma deliver_inv_worker:
  assumes st: "worker_loop w s = Some s'" and inv: "deliver_inv s"
  shows "deliver_inv s'"
proof -
  note wt = deliver_inv_wait [OF inv]
  from st have w: "w < length (threads s)" by (simp add: worker_loop_def split: if_splits)
  have ann: "c_announced (callers s' c)" for c
    using st deliver_inv_announced [OF inv, of c] by (cases rule: worker_loop_cases) simp_all
  have wait: "jobs s' = []" if "W_wait \<in> set (threads s')"
    using st that wt
    by (cases rule: worker_loop_cases) (auto dest!: wait_update split: if_splits)
  have wake: "list_ex awake (threads s') \<or> (\<exists>c. notifying (callers s' c))"
    if "running s'" "jobs s' \<noteq> []" "W_blocked \<in> set (threads s')"
  proof -
    from st have "list_ex awake (threads s')"
    proof (cases rule: worker_loop_cases)
      case Wait
      then have "W_wait \<in> set (threads s)" using w by (metis nth_mem)
      with wt Wait that show ?thesis by simp
    qed (use that w in \<open>auto simp: awake_update split: if_splits\<close>)
    then show ?thesis by blast
  qed
  from ann wait wake show ?thesis by (rule deliver_invI)
qed

lemma wakes_blocked: "wakes ts ts' \<Longrightarrow> W_blocked \<in> set ts' \<Longrightarrow> W_blocked \<in> set ts"
  unfolding wakes_def by (induction rule: list_all2_induct) auto

lemma deliver_inv_wakes:
  assumes inv: "deliver_inv s" and wk: "wakes (threads s) ts'" and "callers s' = callers s"
    "threads s' = ts'" "jobs s' = jobs s" "running s' \<longrightarrow> running s"
    and woke: "W_blocked \<in> set ts' \<Longrightarrow> W_blocked \<in> set (threads s) \<Longrightarrow>
         list_ex awake ts' \<or> (\<exists>c. notifying (callers s c))"
  shows "deliver_inv s'"
proof (rule deliver_invI)
  fix c show "c_announced (callers s' c)"
    using deliver_inv_announced [OF inv, of c] assms by simp
next
  assume "W_wait \<in> set (threads s')"
  with assms wakes_wait [OF wk] deliver_inv_wait [OF inv] show "jobs s' = []" by simp
next
  assume a: "running s'" "jobs s' \<noteq> []" "W_blocked \<in> set (threads s')"
  from a(3) assms(4) wk have "W_blocked \<in> set (threads s)"
    by (auto dest: wakes_blocked)
  with woke a assms show "list_ex awake (threads s') \<or> (\<exists>c. notifying (callers s' c))" by simp
qed


lemma notify_one_woke:
  assumes "cv_notify_one k s = Some s1" "W_blocked \<in> set (threads s)"
  shows "list_ex awake (threads s1)"
  using assms by (auto simp: cv_notify_one_def awake_update split: if_splits)

lemma notify_all_none: "W_blocked \<notin> set (threads (cv_notify_all s))"
  by (auto simp: cv_notify_all_def)

lemma deliver_inv_advance:
  assumes inv: "deliver_inv s" and fr: "callers s c = Running f m (i # prog)"
    and i: "\<not> notification i"
    and s': "jobs s' = jobs s" "threads s' = threads s" "running s' = running s"
      "callers s' = (callers s)(c := Running f m prog)"
  shows "deliver_inv s'"
proof (rule deliver_invI)
  fix c' show "c_announced (callers s' c')"
    using deliver_inv_announced [OF inv, of c'] deliver_inv_announced [OF inv, of c] fr s'
    by simp
next
  assume "W_wait \<in> set (threads s')"
  with deliver_inv_wait [OF inv] s' show "jobs s' = []" by simp
next
  assume "running s'" "jobs s' \<noteq> []" "W_blocked \<in> set (threads s')"
  with deliver_inv_wake [OF inv] s'
  have "list_ex awake (threads s) \<or> (\<exists>c'. notifying (callers s c'))" by simp
  then show "list_ex awake (threads s') \<or> (\<exists>c'. notifying (callers s' c'))"
  proof
    assume "list_ex awake (threads s)" with s' show ?thesis by simp
  next
    assume "\<exists>c'. notifying (callers s c')"
    then obtain c' where c': "notifying (callers s c')" by blast
    with fr i s' have "notifying (callers s' c')" by (cases "c' = c") simp_all
    then show ?thesis by blast
  qed
qed

lemma deliver_inv_push:
  assumes inv: "deliver_inv s" and lk: "lock_inv s"
    and fr: "callers s c = Running f m (i # prog)" and i: "pushes i"
    and s': "threads s' = threads s" "callers s' = (callers s)(c := Running f m prog')"
      "list_ex notification prog' = list_ex notification prog"
      "announced prog'"
  shows "deliver_inv s'"
proof (rule deliver_invI)
  fix c' show "c_announced (callers s' c')"
    using deliver_inv_announced [OF inv, of c'] deliver_inv_announced [OF inv, of c] fr s'
    by (cases "c' = c") simp_all
next
  assume "W_wait \<in> set (threads s')"
  with s' obtain w where w: "w < length (threads s)" "threads s ! w = W_wait"
    by (auto simp: in_set_conv_nth)
  then have "holds s (Worker w)" by simp
  moreover from lk have "c_wf (callers s c)" by (simp add: lock_inv_def)
  with fr i have "holds s (Caller c)" by (cases i) simp_all
  ultimately have False using lock_inv_exclusive [OF lk] by blast
  then show "jobs s' = []" ..
next
  from deliver_inv_announced [OF inv, of c] fr i have "list_ex notification prog" by simp
  with s' have "notifying (callers s' c)" by simp
  then show "list_ex awake (threads s') \<or> (\<exists>c'. notifying (callers s' c'))" by blast
qed

lemma deliver_inv_caller_step:
  assumes st: "caller_step c k s = Some s'" and lk: "lock_inv s" and inv: "deliver_inv s"
  shows "deliver_inv s'"
  using st
proof (cases rule: caller_step_cases)
  case (Return f m)
  show ?thesis
  proof (rule deliver_invI)
    fix c' show "c_announced (callers s' c')"
      using deliver_inv_announced [OF inv, of c'] Return by simp
  next
    assume "W_wait \<in> set (threads s')"
    with deliver_inv_wait [OF inv] Return show "jobs s' = []" by simp
  next
    assume "running s'" "jobs s' \<noteq> []" "W_blocked \<in> set (threads s')"
    with deliver_inv_wake [OF inv] Return
    have "list_ex awake (threads s) \<or> (\<exists>c'. notifying (callers s c'))" by simp
    then show "list_ex awake (threads s') \<or> (\<exists>c'. notifying (callers s' c'))"
    proof
      assume "list_ex awake (threads s)" with Return show ?thesis by simp
    next
      assume "\<exists>c'. notifying (callers s c')"
      then obtain c' where c': "notifying (callers s c')" by blast
      with Return have "c' \<noteq> c" by auto
      with c' Return have "notifying (callers s' c')" by simp
      then show ?thesis by blast
    qed
  qed
next
  case (Lock f m prog)
  then show ?thesis
    by (intro deliver_inv_advance [OF inv, where c = c and i = Lock and prog = prog]) simp_all
next
  case (Unlock f m prog)
  then show ?thesis
    by (intro deliver_inv_advance [OF inv, where c = c and i = Unlock and prog = prog]) simp_all
next
  case (Emplace f m prog j)
  with deliver_inv_announced [OF inv, of c] have "announced prog" by simp
  with Emplace show ?thesis
    by (intro deliver_inv_push [OF inv lk, where c = c and i = "Emplace j" and prog = prog
          and prog' = prog]) simp_all
next
  case (For_more f m prog loop_body sem n stop)
  with deliver_inv_announced [OF inv, of c]
  have "announced (For_emplace loop_body sem (Suc n mod 2 ^ induction_bits loop_body) stop # prog)"
    by simp
  with For_more show ?thesis
    by (intro deliver_inv_push [OF inv lk, where c = c and prog = prog
          and i = "For_emplace loop_body sem n stop"
          and prog' = "For_emplace loop_body sem (Suc n mod 2 ^ induction_bits loop_body) stop
            # prog"]) simp_all
next
  case (For_exit f m prog loop_body sem n stop)
  then show ?thesis
    by (intro deliver_inv_advance [OF inv, where c = c and prog = prog
          and i = "For_emplace loop_body sem n stop"]) simp_all
next
  case (Notify_one f m prog s1)
  from notify_one_wakes [OF Notify_one(2)] obtain ts' where ts': "s1 = s\<lparr>threads := ts'\<rparr>"
    "wakes (threads s) ts'" by blast
  show ?thesis
  proof (rule deliver_invI)
    fix c' show "c_announced (callers s' c')"
      using deliver_inv_announced [OF inv, of c'] deliver_inv_announced [OF inv, of c]
        Notify_one ts' by simp
  next
    assume "W_wait \<in> set (threads s')"
    with deliver_inv_wait [OF inv] Notify_one ts' wakes_wait [OF ts'(2)]
    show "jobs s' = []" by simp
  next
    assume "W_blocked \<in> set (threads s')"
    with Notify_one ts' have "W_blocked \<in> set (threads s)" by (auto dest: wakes_blocked)
    from notify_one_woke [OF Notify_one(2) this] Notify_one
    show "list_ex awake (threads s') \<or> (\<exists>c'. notifying (callers s' c'))" by simp
  qed
next
  case (Notify_all f m prog)
  from notify_all_wakes [of s] obtain ts' where ts': "cv_notify_all s = s\<lparr>threads := ts'\<rparr>"
    "wakes (threads s) ts'" by blast
  show ?thesis
  proof (rule deliver_invI)
    fix c' show "c_announced (callers s' c')"
      using deliver_inv_announced [OF inv, of c'] deliver_inv_announced [OF inv, of c]
        Notify_all ts' by simp
  next
    assume "W_wait \<in> set (threads s')"
    with deliver_inv_wait [OF inv] Notify_all ts' wakes_wait [OF ts'(2)]
    show "jobs s' = []" by simp
  next
    assume "W_blocked \<in> set (threads s')"
    with Notify_all notify_all_none [of s]
    show "list_ex awake (threads s') \<or> (\<exists>c'. notifying (callers s' c'))" by simp
  qed
next
  case (Acquire f m prog sem)
  then show ?thesis
    by (intro deliver_inv_advance [OF inv, where c = c and i = "Acquire sem" and prog = prog])
       simp_all
qed

lemma deliver_inv_step_event:
  assumes st: "step rv e s = Some s'" and lk: "lock_inv s" and inv: "deliver_inv s"
  shows "deliver_inv s'"
  using st
proof (cases rule: step_cases)
  case (Work w)
  with inv show ?thesis by (auto intro: deliver_inv_worker)
next
  case (Spurious w)
  then have w: "w < length (threads s)" "s' = s\<lparr>threads := (threads s)[w := W_woken]\<rparr>"
    "threads s ! w = W_blocked"
    by (auto simp: spurious_wakeup_def split: if_splits)
  then have "wakes (threads s) ((threads s)[w := W_woken])" by (intro wakes_update)
  with w show ?thesis
    by (intro deliver_inv_wakes [OF inv, where ts' = "(threads s)[w := W_woken]"])
       (simp_all add: awake_update)
next
  case (Call c f)
  from Call(2) obtain prog m where c: "callers s c = Idle" "program rv f (next_sem s) = Some prog"
    "callers s' = (callers s)(c := Running f m prog)" "threads s' = threads s" "jobs s' = jobs s"
    by (cases rule: call_cases) simp_all
  show ?thesis
  proof (rule deliver_invI)
    fix c' show "c_announced (callers s' c')"
      using deliver_inv_announced [OF inv, of c'] c program_announced [OF c(2)] by simp
  next
    assume "W_wait \<in> set (threads s')"
    with deliver_inv_wait [OF inv] c show "jobs s' = []" by simp
  next
    assume a: "running s'" "jobs s' \<noteq> []" "W_blocked \<in> set (threads s')"
    from Call(2) have "running s' = running s" by (cases rule: call_cases) simp_all
    with a deliver_inv_wake [OF inv] c
    have "list_ex awake (threads s) \<or> (\<exists>c'. notifying (callers s c'))" by simp
    then show "list_ex awake (threads s') \<or> (\<exists>c'. notifying (callers s' c'))"
    proof
      assume "list_ex awake (threads s)" with c show ?thesis by simp
    next
      assume "\<exists>c'. notifying (callers s c')"
      then obtain c' where c': "notifying (callers s c')" by blast
      with c have "c' \<noteq> c" by auto
      with c' c have "notifying (callers s' c')" by simp
      then show ?thesis by blast
    qed
  qed
next
  case (Step c k)
  with lk inv show ?thesis by (auto intro: deliver_inv_caller_step)
next
  case (Reset n)
  show ?thesis
  proof (rule deliver_invI)
    fix c' show "c_announced (callers s' c')"
      using deliver_inv_announced [OF inv, of c'] Reset by (simp add: reset_frame)
  next
    assume "W_wait \<in> set (threads s')"
    with deliver_inv_wait [OF inv] Reset show "jobs s' = []" by (auto simp: reset_frame)
  next
    assume "running s'" "jobs s' \<noteq> []" "W_blocked \<in> set (threads s')"
    with deliver_inv_wake [OF inv] Reset
    show "list_ex awake (threads s') \<or> (\<exists>c'. notifying (callers s' c'))"
      by (auto simp: reset_frame)
  qed
next
  case Destroy
  from Destroy(2) show ?thesis
  proof (cases rule: destructor_cases)
    case Stop
    with inv show ?thesis by (simp add: deliver_inv_def)
  next
    case Notify
    from notify_all_wakes [of s] obtain ts' where ts': "cv_notify_all s = s\<lparr>threads := ts'\<rparr>"
      "wakes (threads s) ts'" by blast
    with Notify notify_all_none [of s] show ?thesis
      by (intro deliver_inv_wakes [OF inv, where ts' = ts']) simp_all
  next
    case (Join i)
    with inv show ?thesis by (simp add: deliver_inv_def)
  next
    case (Finish i)
    with inv show ?thesis by (simp add: deliver_inv_def)
  qed
qed

lemma deliver_inv_new: "deliver_inv (ThreadPool n)"
  by (simp add: deliver_inv_def threads_ThreadPool)
     (simp add: ThreadPool_def reset_frame new_pool_def)

lemma deliver_inv_exec:
  assumes "exec rv es (ThreadPool n) = Some s"
  shows "deliver_inv s"
proof -
  have "lock_inv s \<and> deliver_inv s"
    using assms
  proof (rule exec_invariant [where P = "\<lambda>s. lock_inv s \<and> deliver_inv s"])
    from safe_new [of n] deliver_inv_new [of n]
    show "lock_inv (ThreadPool n) \<and> deliver_inv (ThreadPool n)" by (simp add: safe_def)
  next
    fix e t t' assume "lock_inv t \<and> deliver_inv t" "step rv e t = Some t'"
    then show "lock_inv t' \<and> deliver_inv t'"
      using lock_inv_step_event deliver_inv_step_event by blast
  qed
  then show ?thesis ..
qed
section \<open>A call run from entry to return\<close>

text \<open>
  The effect of a submitting function when its caller runs it from the call to the return
  with no other thread in between.
\<close>

lemma step_Work: "step rv (Work w) s = worker_loop w s"
  by (cases rv) (simp_all add: step_def worker_loop_v1_eq)

lemma step_Step: "step rv (Step c k) s = caller_step c k s"
  by (simp add: step_def)

lemma exec_emplaces:
  assumes "callers s c = Running f m (map (\<lambda>task. Emplace (g task)) tasks @ rest)"
  shows "exec rv (replicate (length tasks) (Step c k) @ es) s
    = exec rv es (s\<lparr>jobs := jobs s @ map g tasks, enqueued := enqueued s @ map g tasks,
                    callers := (callers s)(c := Running f m rest)\<rparr>)"
  using assms
proof (induction tasks arbitrary: s)
  case Nil
  then have "(callers s)(c := Running f m rest) = callers s" by auto
  then show ?case by simp
next
  case (Cons a tasks)
  let ?t = "s\<lparr>jobs := jobs s @ [g a], enqueued := enqueued s @ [g a],
      callers := (callers s)(c := Running f m (map (\<lambda>task. Emplace (g task)) tasks @ rest))\<rparr>"
  from Cons.prems have st: "step rv (Step c k) s = Some ?t"
    by (simp add: step_Step caller_step_def)
  have "exec rv (replicate (length (a # tasks)) (Step c k) @ es) s
    = exec rv (replicate (length tasks) (Step c k) @ es) ?t"
    by (simp only: length_Cons replicate_Suc append_Cons exec.simps st option.case)
  also have "\<dots> = exec rv es (?t\<lparr>jobs := jobs ?t @ map g tasks, enqueued := enqueued ?t @ map g tasks,
                    callers := (callers ?t)(c := Running f m rest)\<rparr>)"
    by (rule Cons.IH) simp
  also have "?t\<lparr>jobs := jobs ?t @ map g tasks, enqueued := enqueued ?t @ map g tasks,
                    callers := (callers ?t)(c := Running f m rest)\<rparr>
    = s\<lparr>jobs := jobs s @ map g (a # tasks), enqueued := enqueued s @ map g (a # tasks),
                    callers := (callers s)(c := Running f m rest)\<rparr>"
    by simp
  finally show ?case .
qed


lemma exec_Call_busy: "callers s c \<noteq> Idle \<Longrightarrow> exec rv (Call c f # es) s = None"
  by (cases "callers s c") (simp_all add: step_def call_def)

lemma exec_Call_locked:
  assumes "callers s c = Idle" "data_lock s \<noteq> None" "program rv f (next_sem s) = Some (Lock # prog)"
    "\<not> blocking f"
  shows "exec rv (Call c f # Step c k # es) s = None"
  using assms by (auto simp: step_def call_def caller_step_def)

lemma detach_task_result:
  "exec rv [Call c (Detach_task task), Step c k, Step c k, Step c k, Step c k, Step c k] s
    = (if callers s c = Idle \<and> data_lock s = None
       then map_option (\<lambda>t. s\<lparr>jobs := jobs s @ [Plain task], enqueued := enqueued s @ [Plain task],
                         threads := threads t, data_lock := None,
                         callers := (callers s)(c := Idle)\<rparr>) (cv_notify_one k s)
       else None)"
proof (cases "callers s c = Idle")
  case False
  then show ?thesis by (simp add: exec_Call_busy del: exec.simps)
next
  case idle: True
  show ?thesis
  proof (cases "data_lock s = None")
    case False
    have "exec rv (Call c (Detach_task task) # Step c k # es) s = None" for es
      using idle False
      by (cases rv)
         (auto simp: step_def call_def caller_step_def detach_task_def detach_task_v1_def)
    with False show ?thesis by (auto simp del: exec.simps)
  next
    case free: True
    let ?f = "Detach_task task"
    let ?s5 = "\<lambda>t. s\<lparr>jobs := jobs s @ [Plain task], enqueued := enqueued s @ [Plain task],
       threads := threads t, data_lock := None,
       callers := (callers s)(c := Running ?f None [])\<rparr>"
    let ?s6 = "\<lambda>t. s\<lparr>jobs := jobs s @ [Plain task], enqueued := enqueued s @ [Plain task],
       threads := threads t, data_lock := None, callers := (callers s)(c := Idle)\<rparr>"
    have 6: "step rv (Step c k) (?s5 t) = Some (?s6 t)" for t
      by (simp add: step_def caller_step_def)
    show ?thesis
    proof (cases rv)
      case Rev2
      let ?s1 = "s\<lparr>callers := (callers s)(c := Running ?f None (detach_task task))\<rparr>"
      let ?s2 = "s\<lparr>data_lock := Some (Caller c),
         callers := (callers s)(c := Running ?f None [Emplace (Plain task), Unlock, Notify_one])\<rparr>"
      let ?s3 = "s\<lparr>data_lock := Some (Caller c),
         jobs := jobs s @ [Plain task], enqueued := enqueued s @ [Plain task],
         callers := (callers s)(c := Running ?f None [Unlock, Notify_one])\<rparr>"
      let ?s4 = "s\<lparr>data_lock := None,
         jobs := jobs s @ [Plain task], enqueued := enqueued s @ [Plain task],
         callers := (callers s)(c := Running ?f None [Notify_one])\<rparr>"
      have 1: "step rv (Call c ?f) s = Some ?s1"
        using idle Rev2 by (simp add: step_def call_def)
      have 2: "step rv (Step c k) ?s1 = Some ?s2"
        using free by (simp add: step_def caller_step_def detach_task_def)
      have 3: "step rv (Step c k) ?s2 = Some ?s3"
        by (simp add: step_def caller_step_def)
      have 4: "step rv (Step c k) ?s3 = Some ?s4"
        by (simp add: step_def caller_step_def)
      have 5: "step rv (Step c k) ?s4 = map_option ?s5 (cv_notify_one k s)"
        by (simp add: step_def caller_step_def cv_notify_one_def)
      show ?thesis
        by (cases "cv_notify_one k s")
           (simp_all only: exec.simps 1 2 3 4 5 6 option.case option.map idle free simp_thms if_True)
    next
      case Rev1
      let ?s1 = "s\<lparr>callers := (callers s)(c := Running ?f None (detach_task_v1 task))\<rparr>"
      let ?s2 = "s\<lparr>data_lock := Some (Caller c),
         callers := (callers s)(c := Running ?f None [Emplace (Plain task), Notify_one, Unlock])\<rparr>"
      let ?s3 = "s\<lparr>data_lock := Some (Caller c),
         jobs := jobs s @ [Plain task], enqueued := enqueued s @ [Plain task],
         callers := (callers s)(c := Running ?f None [Notify_one, Unlock])\<rparr>"
      let ?s4 = "\<lambda>t. s\<lparr>data_lock := Some (Caller c), threads := threads t,
         jobs := jobs s @ [Plain task], enqueued := enqueued s @ [Plain task],
         callers := (callers s)(c := Running ?f None [Unlock])\<rparr>"
      have 1: "step rv (Call c ?f) s = Some ?s1"
        using idle Rev1 by (simp add: step_def call_def)
      have 2: "step rv (Step c k) ?s1 = Some ?s2"
        using free by (simp add: step_def caller_step_def detach_task_v1_def)
      have 3: "step rv (Step c k) ?s2 = Some ?s3"
        by (simp add: step_def caller_step_def)
      have 4: "step rv (Step c k) ?s3 = map_option ?s4 (cv_notify_one k s)"
        by (simp add: step_def caller_step_def cv_notify_one_def)
      have 5: "step rv (Step c k) (?s4 t) = Some (?s5 t)" for t
        by (simp add: step_def caller_step_def)
      show ?thesis
        by (cases "cv_notify_one k s")
           (simp_all only: exec.simps 1 2 3 4 5 6 option.case option.map idle free simp_thms if_True)
    qed
  qed
qed

lemma replicate_plus_4: "replicate (n + 4) x = x # replicate n x @ [x, x, x]"
  by (simp add: replicate_add numeral_eq_Suc flip: replicate_append_same)

lemma batch_result_v2:
  assumes prog: "program rv f (next_sem s) =
      Some ([Lock] @ map (\<lambda>task. Emplace (Plain task)) tasks @ [Unlock, Notify_all])"
    and nb: "\<not> blocking f"
  shows "exec rv (Call c f # replicate (length tasks + 4) (Step c k)) s
    = (if callers s c = Idle \<and> data_lock s = None
       then Some (s\<lparr>jobs := jobs s @ map Plain tasks, enqueued := enqueued s @ map Plain tasks,
                     threads := threads (cv_notify_all s), data_lock := None,
                     callers := (callers s)(c := Idle)\<rparr>)
       else None)"
proof (cases "callers s c = Idle")
  case False
  then show ?thesis by (simp add: exec_Call_busy del: exec.simps)
next
  case idle: True
  show ?thesis
  proof (cases "data_lock s = None")
    case False
    have "exec rv (Call c f # Step c k # es) s = None" for es
      using idle False prog nb by (intro exec_Call_locked) simp_all
    with False show ?thesis by (auto simp add: replicate_plus_4 simp del: exec.simps)
  next
    case free: True
    let ?js = "map Plain tasks"
    let ?rest = "[Unlock, Notify_all]"
    let ?s1 = "s\<lparr>callers := (callers s)(c := Running f None
       (Lock # map (\<lambda>task. Emplace (Plain task)) tasks @ ?rest))\<rparr>"
    let ?s2 = "s\<lparr>data_lock := Some (Caller c),
       callers := (callers s)(c := Running f None (map (\<lambda>task. Emplace (Plain task)) tasks @ ?rest))\<rparr>"
    let ?s3 = "s\<lparr>data_lock := Some (Caller c),
       jobs := jobs s @ ?js, enqueued := enqueued s @ ?js,
       callers := (callers s)(c := Running f None ?rest)\<rparr>"
    let ?s4 = "s\<lparr>data_lock := None,
       jobs := jobs s @ ?js, enqueued := enqueued s @ ?js,
       callers := (callers s)(c := Running f None [Notify_all])\<rparr>"
    let ?s5 = "s\<lparr>jobs := jobs s @ ?js, enqueued := enqueued s @ ?js,
       threads := threads (cv_notify_all s), data_lock := None,
       callers := (callers s)(c := Running f None [])\<rparr>"
    let ?s6 = "s\<lparr>jobs := jobs s @ ?js, enqueued := enqueued s @ ?js,
       threads := threads (cv_notify_all s), data_lock := None, callers := (callers s)(c := Idle)\<rparr>"
    have 1: "step rv (Call c f) s = Some ?s1"
      using idle prog nb by (simp add: step_def call_def)
    have 2: "step rv (Step c k) ?s1 = Some ?s2"
      using free by (simp add: step_def caller_step_def)
    have "exec rv (replicate (length tasks) (Step c k) @ es) ?s2
      = exec rv es (?s2\<lparr>jobs := jobs ?s2 @ ?js, enqueued := enqueued ?s2 @ ?js,
          callers := (callers ?s2)(c := Running f None ?rest)\<rparr>)" for es
      by (rule exec_emplaces) simp
    moreover have "?s2\<lparr>jobs := jobs ?s2 @ ?js, enqueued := enqueued ?s2 @ ?js,
          callers := (callers ?s2)(c := Running f None ?rest)\<rparr> = ?s3" by simp
    ultimately have 3: "exec rv (replicate (length tasks) (Step c k) @ es) ?s2 = exec rv es ?s3" for es
      by simp
    have 4: "step rv (Step c k) ?s3 = Some ?s4"
      by (simp add: step_def caller_step_def)
    have 5: "step rv (Step c k) ?s4 = Some ?s5"
      by (simp add: step_def caller_step_def cv_notify_all_def)
    have 6: "step rv (Step c k) ?s5 = Some ?s6"
      by (simp add: step_def caller_step_def)
    show ?thesis
      by (simp only: replicate_plus_4 exec.simps 1 2 3 4 5 6 option.case idle free simp_thms if_True)
  qed
qed

lemma batch_result_v1:
  assumes prog: "program rv f (next_sem s) =
      Some ([Lock] @ map (\<lambda>task. Emplace (Plain task)) tasks @ [Notify_all, Unlock])"
    and nb: "\<not> blocking f"
  shows "exec rv (Call c f # replicate (length tasks + 4) (Step c k)) s
    = (if callers s c = Idle \<and> data_lock s = None
       then Some (s\<lparr>jobs := jobs s @ map Plain tasks, enqueued := enqueued s @ map Plain tasks,
                     threads := threads (cv_notify_all s), data_lock := None,
                     callers := (callers s)(c := Idle)\<rparr>)
       else None)"
proof (cases "callers s c = Idle")
  case False
  then show ?thesis by (simp add: exec_Call_busy del: exec.simps)
next
  case idle: True
  show ?thesis
  proof (cases "data_lock s = None")
    case False
    have "exec rv (Call c f # Step c k # es) s = None" for es
      using idle False prog nb by (intro exec_Call_locked) simp_all
    with False show ?thesis by (auto simp add: replicate_plus_4 simp del: exec.simps)
  next
    case free: True
    let ?js = "map Plain tasks"
    let ?rest = "[Notify_all, Unlock]"
    let ?s1 = "s\<lparr>callers := (callers s)(c := Running f None
       (Lock # map (\<lambda>task. Emplace (Plain task)) tasks @ ?rest))\<rparr>"
    let ?s2 = "s\<lparr>data_lock := Some (Caller c),
       callers := (callers s)(c := Running f None (map (\<lambda>task. Emplace (Plain task)) tasks @ ?rest))\<rparr>"
    let ?s3 = "s\<lparr>data_lock := Some (Caller c),
       jobs := jobs s @ ?js, enqueued := enqueued s @ ?js,
       callers := (callers s)(c := Running f None ?rest)\<rparr>"
    let ?s4 = "s\<lparr>data_lock := Some (Caller c), threads := threads (cv_notify_all s),
       jobs := jobs s @ ?js, enqueued := enqueued s @ ?js,
       callers := (callers s)(c := Running f None [Unlock])\<rparr>"
    let ?s5 = "s\<lparr>jobs := jobs s @ ?js, enqueued := enqueued s @ ?js,
       threads := threads (cv_notify_all s), data_lock := None,
       callers := (callers s)(c := Running f None [])\<rparr>"
    let ?s6 = "s\<lparr>jobs := jobs s @ ?js, enqueued := enqueued s @ ?js,
       threads := threads (cv_notify_all s), data_lock := None, callers := (callers s)(c := Idle)\<rparr>"
    have 1: "step rv (Call c f) s = Some ?s1"
      using idle prog nb by (simp add: step_def call_def)
    have 2: "step rv (Step c k) ?s1 = Some ?s2"
      using free by (simp add: step_def caller_step_def)
    have "exec rv (replicate (length tasks) (Step c k) @ es) ?s2
      = exec rv es (?s2\<lparr>jobs := jobs ?s2 @ ?js, enqueued := enqueued ?s2 @ ?js,
          callers := (callers ?s2)(c := Running f None ?rest)\<rparr>)" for es
      by (rule exec_emplaces) simp
    moreover have "?s2\<lparr>jobs := jobs ?s2 @ ?js, enqueued := enqueued ?s2 @ ?js,
          callers := (callers ?s2)(c := Running f None ?rest)\<rparr> = ?s3" by simp
    ultimately have 3: "exec rv (replicate (length tasks) (Step c k) @ es) ?s2 = exec rv es ?s3" for es
      by simp
    have 4: "step rv (Step c k) ?s3 = Some ?s4"
      by (simp add: step_def caller_step_def cv_notify_all_def)
    have 5: "step rv (Step c k) ?s4 = Some ?s5"
      by (simp add: step_def caller_step_def)
    have 6: "step rv (Step c k) ?s5 = Some ?s6"
      by (simp add: step_def caller_step_def)
    show ?thesis
      by (simp only: replicate_plus_4 exec.simps 1 2 3 4 5 6 option.case idle free simp_thms if_True)
  qed
qed

lemma worker_takes_head:
  assumes "w < length (threads s)" "threads s ! w = W_while" "running s" "data_lock s = None"
    "jobs s = j # js"
  shows "exec rv (replicate 5 (Work w)) s
    = Some (s\<lparr>data_lock := Some (Worker w), jobs := js, dequeued := dequeued s @ [j],
              threads := (threads s)[w := W_unlock j]\<rparr>)"
  using assms by (simp add: numeral_eq_Suc step_Work worker_loop_def)


lemma notify_one_possible: "\<exists>k t. cv_notify_one k s = Some t"
proof (cases "W_blocked \<in> set (threads s)")
  case True
  then obtain k where "k < length (threads s)" "threads s ! k = W_blocked"
    by (auto simp: in_set_conv_nth)
  then have "cv_notify_one k s = Some (s\<lparr>threads := (threads s)[k := W_woken]\<rparr>)"
    using True by (simp add: cv_notify_one_def)
  then show ?thesis by blast
next
  case False
  then have "cv_notify_one 0 s = Some s" by (simp add: cv_notify_one_def)
  then show ?thesis by blast
qed

section \<open>Growing the pool\<close>

lemma step_size:
  assumes "step rv e s = Some s'"
  shows "size_pool s \<le> size_pool s'"
  using assms
proof (cases rule: step_cases)
  case (Work w)
  from Work(2) show ?thesis by (cases rule: worker_loop_cases) (simp_all add: size_pool_def)
next
  case (Spurious w)
  with spurious_wakes [of w s s'] show ?thesis by (auto simp: size_pool_def wakes_length)
next
  case (Call c f)
  from Call(2) show ?thesis by (cases rule: call_cases) (simp_all add: size_pool_def)
next
  case (Step c k)
  from Step(2) show ?thesis
  proof (cases rule: caller_step_cases)
    case (Notify_one f m prog s1)
    with notify_one_wakes [OF Notify_one(2)] show ?thesis
      by (auto simp: size_pool_def wakes_length)
  next
    case (Notify_all f m prog)
    with notify_all_wakes [of s] show ?thesis by (auto simp: size_pool_def wakes_length)
  qed (simp_all add: size_pool_def)
next
  case (Reset n)
  then show ?thesis by (simp add: size_pool_def threads_reset)
next
  case Destroy
  from Destroy(2) show ?thesis
  proof (cases rule: destructor_cases)
    case Notify
    with notify_all_wakes [of s] show ?thesis by (auto simp: size_pool_def wakes_length)
  qed (simp_all add: size_pool_def)
qed

lemma exec_size: "exec rv es s = Some s' \<Longrightarrow> size_pool s \<le> size_pool s'"
proof (induction es arbitrary: s)
  case Nil
  then show ?case by simp
next
  case (Cons e es)
  then obtain t where "step rv e s = Some t" "exec rv es t = Some s'"
    by (auto split: option.splits)
  with Cons.IH [of t] step_size [of rv e s t] show ?case by simp
qed

text \<open>
  C6: \<open>reset\<close> with a count \<open>m\<close> above the current size \<open>K\<close> appends exactly \<open>m - K\<close>
  threads, each at the top of \<open>worker_loop\<close> (the one loop every worker runs), and
  \<open>size()\<close> is \<open>m\<close> afterwards. The size never goes down: not by a call of \<open>reset\<close>,
  whatever its argument, and not along any schedule.
\<close>

theorem reset_grows:
  "size_pool p < m \<Longrightarrow>
     reset m p = (Inr (), p\<lparr>threads := threads p @ replicate (m - size_pool p) W_while\<rparr>)
     \<and> size_pool (snd (reset m p)) = m
     \<and> size_pool p \<le> size_pool (snd (reset n p))
     \<and> (exec rv es p = Some p' \<longrightarrow> size_pool p \<le> size_pool p')"
  using exec_size [of rv es p p'] by (simp add: reset_def spawn_eq size_pool_def)

theorem reset_grows_witness:
  "reset 5 (ThreadPool 2) =
     (Inr (), (ThreadPool 2)\<lparr>threads := threads (ThreadPool 2) @ replicate 3 W_while\<rparr>)
   \<and> size_pool (snd (reset 5 (ThreadPool 2))) = 5
   \<and> size_pool (ThreadPool 2) \<le> size_pool (snd (reset 1 (ThreadPool 2)))
   \<and> (\<exists>p'. exec Rev2 [Reset 4, Work 0, Reset 1] (ThreadPool 2) = Some p' \<and> size_pool p' = 4)"
proof -
  have sz: "size_pool (ThreadPool 2) = 2"
    by (simp add: size_pool_def threads_ThreadPool)
  then have lt: "size_pool (ThreadPool 2) < 5" by simp
  have "case exec Rev2 [Reset 4, Work 0, Reset 1] (ThreadPool 2) of
          None \<Rightarrow> False | Some p' \<Rightarrow> size_pool p' = 4"
    by code_simp
  then obtain p' where p': "exec Rev2 [Reset 4, Work 0, Reset 1] (ThreadPool 2) = Some p'"
    "size_pool p' = 4"
    by (auto split: option.splits)
  from reset_grows [OF lt, of 1 Rev2 "[Reset 4, Work 0, Reset 1]" p'] sz p' show ?thesis
    by (auto simp: size_pool_def threads_ThreadPool)
qed

section \<open>The queue and the lock\<close>

lemma front_defined:
  assumes "exec rv es (ThreadPool n) = Some s" "w < length (threads s)" "threads s ! w = W_front"
  shows "jobs s \<noteq> []"
  using safe_exec [OF assms(1)] assms(2,3) by (simp add: safe_def front_inv_def)

text \<open>
  C8: in every reachable state, a worker that is running a job's callable (the user's code
  or the \<open>sem.release()\<close> after it) does not own \<open>data_lock\<close>. The step before the callable
  is \<open>lock.unlock()\<close>: the worker owns the lock there, and that step frees it and leads to
  the callable; the step before that one removes the head of the queue and leads to the
  unlock.
\<close>

theorem task_body_runs_unlocked:
  assumes "exec rv es (ThreadPool n) = Some s" and "w < length (threads s)"
  shows "(threads s ! w = W_invoke j \<or> threads s ! w = W_release j \<longrightarrow>
            data_lock s \<noteq> Some (Worker w))
       \<and> (threads s ! w = W_unlock j \<longrightarrow>
            data_lock s = Some (Worker w)
            \<and> (\<exists>t. step rv (Work w) s = Some t \<and> threads t ! w = W_invoke j
                   \<and> data_lock t = None))
       \<and> (threads s ! w = W_front \<longrightarrow>
            (\<exists>j' t. step rv (Work w) s = Some t \<and> threads t ! w = W_unlock j'
                   \<and> jobs s = j' # jobs t))"
proof -
  from safe_exec [OF assms(1)] have lk: "lock_inv s" and fr: "front_inv s"
    by (simp_all add: safe_def)
  have own: "(data_lock s = Some (Worker w)) = w_holds (threads s ! w)"
    using lk assms(2) by (rule lock_inv_worker_iff)
  have front: "\<exists>j' t. step rv (Work w) s = Some t \<and> threads t ! w = W_unlock j'
      \<and> jobs s = j' # jobs t" if "threads s ! w = W_front"
  proof -
    from fr that assms(2) obtain j' js where "jobs s = j' # js"
      by (auto simp: front_inv_def neq_Nil_conv)
    with that assms(2) show ?thesis by (simp add: step_Work worker_loop_def)
  qed
  show ?thesis using own assms(2) front
    by (auto simp: step_Work worker_loop_def)
qed

theorem task_body_runs_unlocked_witness:
  "\<exists>s. exec Rev2 ([Call 0 (Detach_task 7)] @ replicate 5 (Step 0 0) @ replicate 6 (Work 0))
          (ThreadPool 1) = Some s
       \<and> threads s ! 0 = W_invoke (Plain 7) \<and> data_lock s \<noteq> Some (Worker 0)"
proof -
  have "case exec Rev2 ([Call 0 (Detach_task 7)] @ replicate 5 (Step 0 0) @ replicate 6 (Work 0))
          (ThreadPool 1) of
          None \<Rightarrow> False
        | Some s \<Rightarrow> threads s = [W_invoke (Plain 7)]"
    by code_simp
  then obtain s where s: "exec Rev2 ([Call 0 (Detach_task 7)] @ replicate 5 (Step 0 0)
      @ replicate 6 (Work 0)) (ThreadPool 1) = Some s" "threads s = [W_invoke (Plain 7)]"
    by (auto split: option.splits)
  from s(2) have "0 < length (threads s)" by simp
  from task_body_runs_unlocked [OF s(1) this, of "Plain 7"] s show ?thesis by simp
qed

text \<open>
  C5 (as the spec states it, refuted): removal from the queue is not the start of
  execution. Two workers, two tasks pushed in the order 1, 2: worker 0 pops task 1 and
  unlocks; worker 1 pops task 2, unlocks and calls it; worker 0 has still to call task 1.
  The tasks were removed in insertion order and started in the opposite order.
\<close>

theorem execution_start_order_counterexample:
  "(\<exists>s. exec Rev1 ([Call 0 (Detach_tasks [1, 2])] @ replicate 6 (Step 0 0)
            @ replicate 6 (Work 0) @ replicate 7 (Work 1)) (ThreadPool 2) = Some s
        \<and> enqueued s = [Plain 1, Plain 2] \<and> dequeued s = [Plain 1, Plain 2]
        \<and> started s = [Plain 2] \<and> finished s = [Plain 2]
        \<and> threads s ! 0 = W_invoke (Plain 1)
        \<and> started s \<noteq> take (length (started s)) (enqueued s))
   \<and> (\<exists>s. exec Rev2 ([Call 0 (Detach_tasks [1, 2])] @ replicate 6 (Step 0 0)
            @ replicate 6 (Work 0) @ replicate 7 (Work 1)) (ThreadPool 2) = Some s
        \<and> enqueued s = [Plain 1, Plain 2] \<and> dequeued s = [Plain 1, Plain 2]
        \<and> started s = [Plain 2] \<and> finished s = [Plain 2]
        \<and> threads s ! 0 = W_invoke (Plain 1)
        \<and> started s \<noteq> take (length (started s)) (enqueued s))"
proof -
  have "case exec rv ([Call 0 (Detach_tasks [1, 2])] @ replicate 6 (Step 0 0)
            @ replicate 6 (Work 0) @ replicate 7 (Work 1)) (ThreadPool 2) of
          None \<Rightarrow> False
        | Some s \<Rightarrow> enqueued s = [Plain 1, Plain 2] \<and> dequeued s = [Plain 1, Plain 2]
            \<and> started s = [Plain 2] \<and> finished s = [Plain 2]
            \<and> threads s ! 0 = W_invoke (Plain 1)
            \<and> started s \<noteq> take (length (started s)) (enqueued s)" for rv
    by (cases rv; hypsubst; code_simp)
  from this [of Rev1] this [of Rev2] show ?thesis by (auto split: option.splits)
qed

text \<open>
  C5 (amended): the queue is first-in first-out in the order of removal, in both
  revisions. In every reachable state the jobs pushed so far, in the order of the pushes,
  are the jobs popped so far, in the order of the pops, followed by the queue. A push
  (\<open>jobs.emplace\<close>, \<open>jobs.push\<close>) appends at the tail. The pop of \<open>worker_loop\<close> finds the
  queue non-empty and takes its head, and a worker at the top of its loop that finds the
  lock free and the queue non-empty reaches that pop in five steps. \<open>detach_task\<close>,
  \<open>detach_tasks\<close> and the pointer-and-count overload of \<open>ThreadPool.hpp\<close>, run from call to
  return, append their tasks at the tail in the order given. The pop is not the call: in
  a pool of at most one worker the jobs are called in the order of insertion (the jobs
  pushed are the jobs called, in the order of the calls, then the job the worker holds,
  then the queue); with two workers or more they need not be.
\<close>

theorem queue_is_fifo:
  assumes "exec rv es (ThreadPool n) = Some s"
  shows "enqueued s = dequeued s @ jobs s
       \<and> (callers s c = Running f m (Emplace j # prog) \<longrightarrow>
            (\<exists>t. step rv (Step c k) s = Some t \<and> jobs t = jobs s @ [j]
                   \<and> enqueued t = enqueued s @ [j]))
       \<and> (w < length (threads s) \<and> threads s ! w = W_front \<longrightarrow>
            (\<exists>j' js t. jobs s = j' # js \<and> step rv (Work w) s = Some t \<and> jobs t = js
                   \<and> dequeued t = dequeued s @ [j'] \<and> threads t ! w = W_unlock j'))
       \<and> (w < length (threads s) \<and> threads s ! w = W_while \<and> running s \<and> data_lock s = None
            \<and> jobs s = j' # js \<longrightarrow>
            (\<exists>t. exec rv (replicate 5 (Work w)) s = Some t \<and> jobs t = js
                   \<and> dequeued t = dequeued s @ [j'] \<and> threads t ! w = W_unlock j'))
       \<and> (callers s c = Idle \<and> data_lock s = None \<longrightarrow>
            (\<exists>k' t. exec rv (Call c (Detach_task task) # replicate 5 (Step c k')) s = Some t
                   \<and> jobs t = jobs s @ [Plain task] \<and> enqueued t = enqueued s @ [Plain task]))
       \<and> (callers s c = Idle \<and> data_lock s = None \<longrightarrow>
            (\<exists>t. exec rv (Call c (Detach_tasks tasks) # replicate (length tasks + 4) (Step c k)) s
                     = Some t
                   \<and> jobs t = jobs s @ map Plain tasks
                   \<and> enqueued t = enqueued s @ map Plain tasks))
       \<and> (callers s c = Idle \<and> data_lock s = None \<and> num_tasks \<le> length tasks \<longrightarrow>
            (\<exists>t. exec Rev1 (Call c (Detach_tasks_arr tasks num_tasks)
                       # replicate (num_tasks + 4) (Step c k)) s = Some t
                   \<and> jobs t = jobs s @ map Plain (take num_tasks tasks)
                   \<and> enqueued t = enqueued s @ map Plain (take num_tasks tasks)))
       \<and> emplaces (detach_task task) = [Plain task]
       \<and> emplaces (detach_tasks tasks) = map Plain tasks
       \<and> emplaces (detach_task_v1 task) = [Plain task]
       \<and> emplaces (detach_tasks_v1 tasks) = map Plain tasks
       \<and> (num_tasks \<le> length tasks \<longrightarrow>
            map_option emplaces (detach_tasks_arr_v1 tasks num_tasks)
              = Some (map Plain (take num_tasks tasks)))
       \<and> (size_pool s \<le> 1 \<longrightarrow> enqueued s = started s @ held (threads s) @ jobs s)"
proof -
  from safe_exec [OF assms(1)] have fr: "front_inv s" and ff: "fifo_inv s"
    by (simp_all add: safe_def)
  from solo_inv_exec [OF assms(1)] have so: "solo_inv s" .
  have front: "\<exists>j' js t. jobs s = j' # js \<and> step rv (Work w) s = Some t \<and> jobs t = js
      \<and> dequeued t = dequeued s @ [j'] \<and> threads t ! w = W_unlock j'"
    if "w < length (threads s)" "threads s ! w = W_front"
  proof -
    from fr that obtain j' js where "jobs s = j' # js"
      by (auto simp: front_inv_def neq_Nil_conv)
    with that show ?thesis by (simp add: step_Work worker_loop_def)
  qed
  have push: "\<exists>t. step rv (Step c k) s = Some t \<and> jobs t = jobs s @ [j]
      \<and> enqueued t = enqueued s @ [j]" if "callers s c = Running f m (Emplace j # prog)"
    using that by (simp add: step_Step caller_step_def)
  have take: "\<exists>t. exec rv (replicate 5 (Work w)) s = Some t \<and> jobs t = js
      \<and> dequeued t = dequeued s @ [j'] \<and> threads t ! w = W_unlock j'"
    if "w < length (threads s)" "threads s ! w = W_while" "running s" "data_lock s = None"
      "jobs s = j' # js"
    using worker_takes_head [OF that, of rv] that(1) by simp
  have one: "\<exists>k' t. exec rv (Call c (Detach_task task) # replicate 5 (Step c k')) s = Some t
      \<and> jobs t = jobs s @ [Plain task] \<and> enqueued t = enqueued s @ [Plain task]"
    if "callers s c = Idle" "data_lock s = None"
  proof -
    from notify_one_possible obtain k' t where k': "cv_notify_one k' s = Some t" by blast
    let ?t = "s\<lparr>jobs := jobs s @ [Plain task], enqueued := enqueued s @ [Plain task],
        threads := threads t, data_lock := None, callers := (callers s)(c := Idle)\<rparr>"
    from that k' detach_task_result [of rv c task k' s]
    have "exec rv (Call c (Detach_task task) # replicate 5 (Step c k')) s = Some ?t"
      by (simp add: numeral_eq_Suc del: exec.simps)
    moreover have "jobs ?t = jobs s @ [Plain task]" "enqueued ?t = enqueued s @ [Plain task]"
      by simp_all
    ultimately show ?thesis by blast
  qed
  have many: "\<exists>t. exec rv (Call c (Detach_tasks tasks) # replicate (length tasks + 4) (Step c k)) s
        = Some t
      \<and> jobs t = jobs s @ map Plain tasks \<and> enqueued t = enqueued s @ map Plain tasks"
    if "callers s c = Idle" "data_lock s = None"
  proof (cases rv)
    case Rev1
    with that batch_result_v1 [of Rev1 "Detach_tasks tasks" s tasks c k] show ?thesis
      by (simp add: detach_tasks_v1_def del: exec.simps)
  next
    case Rev2
    with that batch_result_v2 [of Rev2 "Detach_tasks tasks" s tasks c k] show ?thesis
      by (simp add: detach_tasks_def del: exec.simps)
  qed
  have arr: "\<exists>t. exec Rev1 (Call c (Detach_tasks_arr tasks num_tasks)
        # replicate (num_tasks + 4) (Step c k)) s = Some t
      \<and> jobs t = jobs s @ map Plain (take num_tasks tasks)
      \<and> enqueued t = enqueued s @ map Plain (take num_tasks tasks)"
    if "callers s c = Idle" "data_lock s = None" "num_tasks \<le> length tasks"
    using that batch_result_v1 [of Rev1 "Detach_tasks_arr tasks num_tasks" s
        "take num_tasks tasks" c k]
    by (simp add: detach_tasks_arr_v1_def min_absorb2 del: exec.simps)
  have solo: "enqueued s = started s @ held (threads s) @ jobs s" if "size_pool s \<le> 1"
    using that so ff by (simp add: solo_inv_def fifo_inv_def size_pool_def)
  have progs: "emplaces (detach_task task) = [Plain task]"
    "emplaces (detach_tasks tasks) = map Plain tasks"
    "emplaces (detach_task_v1 task) = [Plain task]"
    "emplaces (detach_tasks_v1 tasks) = map Plain tasks"
    "num_tasks \<le> length tasks \<longrightarrow>
       map_option emplaces (detach_tasks_arr_v1 tasks num_tasks)
         = Some (map Plain (take num_tasks tasks))"
    by (simp_all add: detach_task_def detach_tasks_def detach_task_v1_def
        detach_tasks_v1_def detach_tasks_arr_v1_def)
  from ff have fifo: "enqueued s = dequeued s @ jobs s" by (simp add: fifo_inv_def)
  have c2: "callers s c = Running f m (Emplace j # prog) \<longrightarrow>
      (\<exists>t. step rv (Step c k) s = Some t \<and> jobs t = jobs s @ [j]
         \<and> enqueued t = enqueued s @ [j])"
    using push by blast
  have c3: "w < length (threads s) \<and> threads s ! w = W_front \<longrightarrow>
      (\<exists>j' js t. jobs s = j' # js \<and> step rv (Work w) s = Some t \<and> jobs t = js
         \<and> dequeued t = dequeued s @ [j'] \<and> threads t ! w = W_unlock j')"
    using front by blast
  have c4: "w < length (threads s) \<and> threads s ! w = W_while \<and> running s \<and> data_lock s = None
      \<and> jobs s = j' # js \<longrightarrow>
      (\<exists>t. exec rv (replicate 5 (Work w)) s = Some t \<and> jobs t = js
         \<and> dequeued t = dequeued s @ [j'] \<and> threads t ! w = W_unlock j')"
    using take by blast
  have c5: "callers s c = Idle \<and> data_lock s = None \<longrightarrow>
      (\<exists>k' t. exec rv (Call c (Detach_task task) # replicate 5 (Step c k')) s = Some t
         \<and> jobs t = jobs s @ [Plain task] \<and> enqueued t = enqueued s @ [Plain task])"
    using one by blast
  have c6: "callers s c = Idle \<and> data_lock s = None \<longrightarrow>
      (\<exists>t. exec rv (Call c (Detach_tasks tasks) # replicate (length tasks + 4) (Step c k)) s
               = Some t
         \<and> jobs t = jobs s @ map Plain tasks
         \<and> enqueued t = enqueued s @ map Plain tasks)"
    using many by blast
  have c7: "callers s c = Idle \<and> data_lock s = None \<and> num_tasks \<le> length tasks \<longrightarrow>
      (\<exists>t. exec Rev1 (Call c (Detach_tasks_arr tasks num_tasks)
                 # replicate (num_tasks + 4) (Step c k)) s = Some t
         \<and> jobs t = jobs s @ map Plain (take num_tasks tasks)
         \<and> enqueued t = enqueued s @ map Plain (take num_tasks tasks))"
    using arr by blast
  have c13: "size_pool s \<le> 1 \<longrightarrow> enqueued s = started s @ held (threads s) @ jobs s"
    using solo by blast
  from fifo c2 c3 c4 c5 c6 c7 progs c13 show ?thesis
    by (intro conjI) assumption+
qed


theorem queue_is_fifo_witness:
  "(\<exists>s t. exec Rev1 ([Call 0 (Detach_tasks [1, 2, 3])] @ replicate 2 (Step 0 0)) (ThreadPool 1)
            = Some s
          \<and> jobs s = [Plain 1] \<and> step Rev1 (Step 0 0) s = Some t
          \<and> jobs t = [Plain 1, Plain 2] \<and> enqueued t = [Plain 1, Plain 2])
   \<and> (\<exists>s t. exec Rev1 ([Call 0 (Detach_tasks [1, 2, 3])] @ replicate 7 (Step 0 0)) (ThreadPool 1)
            = Some s
          \<and> jobs s = [Plain 1, Plain 2, Plain 3]
          \<and> exec Rev1 (replicate 5 (Work 0)) s = Some t
          \<and> jobs t = [Plain 2, Plain 3] \<and> dequeued t = [Plain 1]
          \<and> threads t ! 0 = W_unlock (Plain 1))
   \<and> (\<exists>s t. exec Rev1 ([Call 0 (Detach_tasks [1, 2, 3])] @ replicate 7 (Step 0 0)
              @ replicate 11 (Work 0)) (ThreadPool 1) = Some s
          \<and> enqueued s = [Plain 1, Plain 2, Plain 3] \<and> dequeued s = [Plain 1]
          \<and> jobs s = [Plain 2, Plain 3]
          \<and> step Rev1 (Work 0) s = Some t \<and> jobs t = [Plain 3]
          \<and> dequeued t = [Plain 1, Plain 2])
   \<and> (\<exists>s. exec Rev1 ([Call 0 (Detach_tasks [1, 2, 3])] @ replicate 7 (Step 0 0)
              @ replicate 13 (Work 0)) (ThreadPool 1) = Some s
          \<and> started s = [Plain 1] \<and> held (threads s) = [Plain 2] \<and> jobs s = [Plain 3]
          \<and> enqueued s = started s @ held (threads s) @ jobs s)
   \<and> (\<exists>t. exec Rev1 (Call 0 (Detach_tasks_arr [1, 2, 3] 2) # replicate (2 + 4) (Step 0 0))
              (ThreadPool 1) = Some t
          \<and> jobs t = [Plain 1, Plain 2])
   \<and> (\<exists>k' t. exec Rev2 (Call 0 (Detach_task 7) # replicate 5 (Step 0 k')) (ThreadPool 1) = Some t
          \<and> jobs t = [Plain 7])"
proof -
  let ?call = "Call 0 (Detach_tasks [1, 2, 3])"
  have "case exec Rev1 ([?call] @ replicate 2 (Step 0 0)) (ThreadPool 1) of
          None \<Rightarrow> False
        | Some s \<Rightarrow> jobs s = [Plain 1] \<and> enqueued s = [Plain 1]
            \<and> callers s 0 = Running (Detach_tasks [1, 2, 3]) None
                 [Emplace (Plain 2), Emplace (Plain 3), Notify_all, Unlock]"
    by code_simp
  then obtain a where a: "exec Rev1 ([?call] @ replicate 2 (Step 0 0)) (ThreadPool 1) = Some a"
      "jobs a = [Plain 1]" "enqueued a = [Plain 1]"
      "callers a 0 = Running (Detach_tasks [1, 2, 3]) None
         [Emplace (Plain 2), Emplace (Plain 3), Notify_all, Unlock]"
    by (auto split: option.splits)
  from queue_is_fifo [OF a(1), of 0 "Detach_tasks [1, 2, 3]" None "Plain 2"
      "[Emplace (Plain 3), Notify_all, Unlock]" 0, THEN conjunct2, THEN conjunct1] a
  have 1: "\<exists>s t. exec Rev1 ([?call] @ replicate 2 (Step 0 0)) (ThreadPool 1) = Some s
      \<and> jobs s = [Plain 1] \<and> step Rev1 (Step 0 0) s = Some t
      \<and> jobs t = [Plain 1, Plain 2] \<and> enqueued t = [Plain 1, Plain 2]"
    by auto
  have "case exec Rev1 ([?call] @ replicate 7 (Step 0 0)) (ThreadPool 1) of
          None \<Rightarrow> False
        | Some s \<Rightarrow> threads s = [W_while] \<and> running s \<and> data_lock s = None
            \<and> jobs s = [Plain 1, Plain 2, Plain 3] \<and> dequeued s = []"
    by code_simp
  then obtain b where b: "exec Rev1 ([?call] @ replicate 7 (Step 0 0)) (ThreadPool 1) = Some b"
      "threads b = [W_while]" "running b" "data_lock b = None"
      "jobs b = [Plain 1, Plain 2, Plain 3]" "dequeued b = []"
    by (auto split: option.splits)
  from queue_is_fifo [OF b(1), where w = 0 and j' = "Plain 1" and js = "[Plain 2, Plain 3]",
      THEN conjunct2, THEN conjunct2, THEN conjunct2, THEN conjunct1] b
  have 2: "\<exists>s t. exec Rev1 ([?call] @ replicate 7 (Step 0 0)) (ThreadPool 1) = Some s
      \<and> jobs s = [Plain 1, Plain 2, Plain 3]
      \<and> exec Rev1 (replicate 5 (Work 0)) s = Some t
      \<and> jobs t = [Plain 2, Plain 3] \<and> dequeued t = [Plain 1]
      \<and> threads t ! 0 = W_unlock (Plain 1)"
    by (auto simp del: exec.simps)
  have "case exec Rev1 ([?call] @ replicate 7 (Step 0 0) @ replicate 11 (Work 0)) (ThreadPool 1) of
          None \<Rightarrow> False
        | Some s \<Rightarrow> threads s = [W_front] \<and> enqueued s = [Plain 1, Plain 2, Plain 3]
            \<and> dequeued s = [Plain 1] \<and> jobs s = [Plain 2, Plain 3]"
    by code_simp
  then obtain d where d: "exec Rev1 ([?call] @ replicate 7 (Step 0 0) @ replicate 11 (Work 0))
        (ThreadPool 1) = Some d"
      "threads d = [W_front]" "enqueued d = [Plain 1, Plain 2, Plain 3]"
      "dequeued d = [Plain 1]" "jobs d = [Plain 2, Plain 3]"
    by (auto split: option.splits)
  from queue_is_fifo [OF d(1), where w = 0, THEN conjunct2, THEN conjunct2, THEN conjunct1] d
  have 3: "\<exists>s t. exec Rev1 ([?call] @ replicate 7 (Step 0 0) @ replicate 11 (Work 0))
        (ThreadPool 1) = Some s
      \<and> enqueued s = [Plain 1, Plain 2, Plain 3] \<and> dequeued s = [Plain 1]
      \<and> jobs s = [Plain 2, Plain 3]
      \<and> step Rev1 (Work 0) s = Some t \<and> jobs t = [Plain 3]
      \<and> dequeued t = [Plain 1, Plain 2]"
    by (auto simp del: exec.simps)
  have "case exec Rev1 ([?call] @ replicate 7 (Step 0 0) @ replicate 13 (Work 0)) (ThreadPool 1) of
          None \<Rightarrow> False
        | Some s \<Rightarrow> threads s = [W_invoke (Plain 2)] \<and> started s = [Plain 1]
            \<and> jobs s = [Plain 3]"
    by code_simp
  then obtain e where e: "exec Rev1 ([?call] @ replicate 7 (Step 0 0) @ replicate 13 (Work 0))
        (ThreadPool 1) = Some e"
      "threads e = [W_invoke (Plain 2)]" "started e = [Plain 1]" "jobs e = [Plain 3]"
    by (auto split: option.splits)
  from queue_is_fifo [OF e(1), THEN conjunct2, THEN conjunct2, THEN conjunct2, THEN conjunct2, THEN conjunct2, THEN conjunct2, THEN conjunct2, THEN conjunct2, THEN conjunct2, THEN conjunct2, THEN conjunct2, THEN conjunct2] e
  have 4: "\<exists>s. exec Rev1 ([?call] @ replicate 7 (Step 0 0) @ replicate 13 (Work 0))
        (ThreadPool 1) = Some s
      \<and> started s = [Plain 1] \<and> held (threads s) = [Plain 2] \<and> jobs s = [Plain 3]
      \<and> enqueued s = started s @ held (threads s) @ jobs s"
    by (auto simp: size_pool_def held_def simp del: exec.simps)
  have p: "exec rv [] (ThreadPool 1) = Some (ThreadPool 1)" for rv by simp
  have idle: "callers (ThreadPool 1) 0 = Idle" "data_lock (ThreadPool 1) = None"
    "jobs (ThreadPool 1) = []"
    by (simp_all add: ThreadPool_def reset_frame new_pool_def)
  from queue_is_fifo [OF p [of Rev1], where c = 0 and tasks = "[1, 2, 3]" and num_tasks = 2
      and k = 0, THEN conjunct2, THEN conjunct2, THEN conjunct2, THEN conjunct2, THEN conjunct2, THEN conjunct2, THEN conjunct1] idle
  have 5: "\<exists>t. exec Rev1 (Call 0 (Detach_tasks_arr [1, 2, 3] 2) # replicate (2 + 4) (Step 0 0))
        (ThreadPool 1) = Some t \<and> jobs t = [Plain 1, Plain 2]"
    by (auto simp del: exec.simps)
  from queue_is_fifo [OF p [of Rev2], where c = 0 and task = 7, THEN conjunct2, THEN conjunct2, THEN conjunct2, THEN conjunct2, THEN conjunct1] idle
  have 6: "\<exists>k' t. exec Rev2 (Call 0 (Detach_task 7) # replicate 5 (Step 0 k')) (ThreadPool 1)
        = Some t \<and> jobs t = [Plain 7]"
    by (auto simp del: exec.simps)
  from 1 2 3 4 5 6 show ?thesis by (intro conjI) assumption+
qed

section \<open>The blocking submission \<open>run_tasks\<close>\<close>

lemma mset_subset_size_eq: "A \<subseteq># B \<Longrightarrow> size B \<le> size A \<Longrightarrow> A = B"
  by (metis leD mset_subset_size subset_mset.le_neq_trans)

lemma finished_within_enqueued:
  assumes "fifo_inv s" "flight_inv s"
  shows "mset (filter P (finished s)) \<subseteq># mset (filter P (enqueued s))"
proof -
  from assms(2) have "mset (finished s) \<subseteq># mset (dequeued s)"
    by (simp add: flight_inv_def)
  also from assms(1) have "mset (dequeued s) \<subseteq># mset (enqueued s)"
    by (simp add: fifo_inv_def)
  finally show ?thesis by (simp add: multiset_filter_mono)
qed

text \<open>
  C3: take any reachable state in which a caller is inside \<open>run_tasks(tasks)\<close>, with its
  semaphore \<open>sem\<close> and the statements \<open>prog\<close> it has still to run. The wrapped tasks pushed
  so far, followed by those still to push, are the \<open>N\<close> wrapped tasks in order, so all \<open>N\<close>
  are in the queue's history once the loop of pushes is over. No signal is lost: the count
  of the semaphore plus \<open>N\<close> equals the number of wrappers of this call that have finished
  plus the acquisitions still to make, whether the wrappers finished before or after the
  caller began to wait. At
  the return point (\<open>prog = []\<close>, all \<open>N\<close> acquisitions made) the finished wrappers of this
  call are exactly the \<open>N\<close> wrapped tasks, each once, and the count is back to zero.
\<close>

theorem run_tasks_waits_for_all:
  assumes "exec rv es (ThreadPool n) = Some s"
    and "callers s c = Running (Run_tasks tasks) (Some sem) prog"
  shows "filter (\<lambda>j. sem_of j = Some sem) (enqueued s) @ emplaces prog
           = map (\<lambda>task. Run_wrapper task sem) tasks
       \<and> sems s sem + length tasks
           = length (filter (\<lambda>j. sem_of j = Some sem) (finished s))
               + count_list prog (Acquire sem)
       \<and> (prog = [] \<longrightarrow>
            mset (filter (\<lambda>j. sem_of j = Some sem) (finished s))
              = mset (map (\<lambda>task. Run_wrapper task sem) tasks)
            \<and> sems s sem = 0)"
proof -
  from complete_exec [OF assms(1)]
  have ff: "fifo_inv s" and fl: "flight_inv s" and ri: "run_inv s"
    by (simp_all add: complete_def safe_def)
  from run_invD [OF ri assms(2)] have rf: "run_frame s tasks sem prog" .
  let ?U = "\<lambda>j. sem_of j = Some sem"
  from rf have pushed: "filter ?U (enqueued s) @ emplaces prog = map (\<lambda>task. Run_wrapper task sem) tasks"
    and count: "sems s sem + length tasks = length (filter ?U (finished s)) + count_list prog (Acquire sem)"
    by (simp_all add: run_frame_def)
  have sub: "mset (filter ?U (finished s)) \<subseteq># mset (filter ?U (enqueued s))"
    using ff fl by (rule finished_within_enqueued)
  then have "length (filter ?U (finished s)) \<le> length (filter ?U (enqueued s))"
    by (metis size_mset size_mset_mono)
  also from pushed have "\<dots> \<le> length tasks"
    by (metis length_append length_map le_add1)
  finally have le: "length (filter ?U (finished s)) \<le> length tasks" .
  have final: "mset (filter ?U (finished s)) = mset (map (\<lambda>task. Run_wrapper task sem) tasks)
      \<and> sems s sem = 0" if "prog = []"
  proof -
    from that pushed have all: "filter ?U (enqueued s) = map (\<lambda>task. Run_wrapper task sem) tasks"
      by simp
    from that count le have n: "length (filter ?U (finished s)) = length tasks" "sems s sem = 0"
      by simp_all
    from sub all have "mset (filter ?U (finished s)) \<subseteq># mset (map (\<lambda>task. Run_wrapper task sem) tasks)"
      by simp
    moreover from n have "size (mset (map (\<lambda>task. Run_wrapper task sem) tasks))
        \<le> size (mset (filter ?U (finished s)))" by (simp only: size_mset length_map)
    ultimately show ?thesis using n(2) by (simp add: mset_subset_size_eq)
  qed
  from pushed count final show ?thesis by simp
qed

theorem run_tasks_waits_for_all_witness:
  "\<exists>s. exec Rev2 ([Call 0 (Run_tasks [1, 2])] @ replicate 5 (Step 0 0) @ replicate 16 (Work 0)
            @ replicate 2 (Step 0 0)) (ThreadPool 1) = Some s
       \<and> callers s 0 = Running (Run_tasks [1, 2]) (Some 0) []
       \<and> mset (filter (\<lambda>j. sem_of j = Some 0) (finished s)) = mset [Run_wrapper 1 0, Run_wrapper 2 0]
       \<and> sems s 0 = 0"
proof -
  have "case exec Rev2 ([Call 0 (Run_tasks [1, 2])] @ replicate 5 (Step 0 0)
            @ replicate 16 (Work 0) @ replicate 2 (Step 0 0)) (ThreadPool 1) of
          None \<Rightarrow> False
        | Some s \<Rightarrow> callers s 0 = Running (Run_tasks [1, 2]) (Some 0) []"
    by code_simp
  then obtain s where s: "exec Rev2 ([Call 0 (Run_tasks [1, 2])] @ replicate 5 (Step 0 0)
      @ replicate 16 (Work 0) @ replicate 2 (Step 0 0)) (ThreadPool 1) = Some s"
      "callers s 0 = Running (Run_tasks [1, 2]) (Some 0) []"
    by (auto split: option.splits)
  from run_tasks_waits_for_all [OF s] s show ?thesis by auto
qed

section \<open>The two revisions\<close>

text \<open>
  Both revisions reach the same observations: a simulation in each direction. A step of
  one revision is answered by no step, one step or two steps of the other.
\<close>

lemma observe_eq_iff:
  "observe s = observe t \<longleftrightarrow>
     running s = running t \<and> map view (threads s) = map view (threads t) \<and> jobs s = jobs t
     \<and> data_lock s = data_lock t \<and> (\<forall>c. inside (callers s c) = inside (callers t c))
     \<and> destructor s = destructor t \<and> sems s = sems t \<and> next_sem s = next_sem t
     \<and> enqueued s = enqueued t \<and> dequeued s = dequeued t \<and> started s = started t
     \<and> finished s = finished t"
  by (cases s; cases t) (auto simp: observe_def fun_eq_iff)

lemma view_wakes: "wakes ts ts' \<Longrightarrow> map view ts' = map view ts"
  unfolding wakes_def by (induction rule: list_all2_induct) auto

lemma observe_wakes: "wakes (threads s) ts' \<Longrightarrow> observe (s\<lparr>threads := ts'\<rparr>) = observe s"
  by (simp add: observe_eq_iff view_wakes)

lemma observe_length: "observe s = observe t \<Longrightarrow> length (threads t) = length (threads s)"
  by (metis length_map observe_eq_iff)

lemma observe_view:
  assumes "observe s = observe t" "w < length (threads s)"
  shows "view (threads t ! w) = view (threads s ! w)"
proof -
  from assms(1) have m: "map view (threads s) = map view (threads t)"
    by (simp add: observe_eq_iff)
  then have "length (threads t) = length (threads s)" by (metis length_map)
  with assms(2) have "map view (threads t) ! w = view (threads t ! w)"
    "map view (threads s) ! w = view (threads s ! w)" by simp_all
  with m show ?thesis by simp
qed

lemma worker_alike:
  assumes obs: "observe s = observe t" and same: "threads t ! w = threads s ! w"
    and step: "worker_loop w s = Some s'"
  shows "\<exists>t'. worker_loop w t = Some t' \<and> observe s' = observe t'
      \<and> callers t' = callers t \<and> callers s' = callers s"
proof -
  from obs have len: "length (threads t) = length (threads s)" by (rule observe_length)
  from obs have eq: "running t = running s" "jobs t = jobs s" "data_lock t = data_lock s"
    "sems t = sems s" "next_sem t = next_sem s" "destructor t = destructor s"
    "enqueued t = enqueued s" "dequeued t = dequeued s" "started t = started s"
    "finished t = finished s" "map view (threads t) = map view (threads s)"
    "\<And>c. inside (callers t c) = inside (callers s c)"
    by (simp_all add: observe_eq_iff)
  from step show ?thesis
    by (cases rule: worker_loop_cases)
       (simp_all add: worker_loop_def observe_eq_iff map_update eq same len split: option.splits)
qed


lemma step_Spurious: "step rv (Spurious w) s = spurious_wakeup w s"
  by (simp add: step_def)

lemma step_Call: "step rv (Call c f) s = call rv c f s"
  by (simp add: step_def)

lemma step_Reset:
  "step rv (Reset n) s = (if destructor s = D_alive then Some (snd (reset n s)) else None)"
  by (cases rv) (simp_all add: step_def reset_v1_eq)

lemma step_Destroy: "step rv Destroy s = ThreadPool_destructor s"
  by (cases rv) (simp_all add: step_def destructor_v1_eq)

lemma exec_append:
  "exec rv (es @ es') s = (case exec rv es s of None \<Rightarrow> None | Some t \<Rightarrow> exec rv es' t)"
  by (induction es arbitrary: s) (auto split: option.splits)

lemma view_done: "view pc = W_done \<longleftrightarrow> pc = W_done"
  by (cases pc) simp_all

lemma env_step:
  assumes obs: "observe s = observe t" and st: "step rv e s = Some s'"
    and env: "\<And>c f. e \<noteq> Call c f" "\<And>c k. e \<noteq> Step c k"
  shows "\<exists>es' t'. exec rv' es' t = Some t' \<and> observe s' = observe t'
      \<and> callers t' = callers t \<and> callers s' = callers s \<and> list_all shared es'"
  using st
proof (cases rule: step_cases)
  case (Work w)
  from Work(2) have w: "w < length (threads s)"
    by (simp add: worker_loop_def split: if_splits)
  from Work(2) w have nb: "threads s ! w \<noteq> W_blocked"
    by (auto simp: worker_loop_def)
  from obs have len: "length (threads t) = length (threads s)" by (rule observe_length)
  from obs w have vw: "view (threads t ! w) = view (threads s ! w)" by (rule observe_view)
  show ?thesis
  proof (cases "threads t ! w = threads s ! w")
    case True
    from worker_alike [OF obs True Work(2)] obtain t' where t': "worker_loop w t = Some t'"
      "observe s' = observe t'" "callers t' = callers t" "callers s' = callers s" by blast
    then have "exec rv' [Work w] t = Some t'" by (simp add: step_Work)
    with t' show ?thesis by (intro exI [of _ "[Work w]"]) auto
  next
    case False
    with vw nb have pcs: "threads s ! w = W_woken" "threads t ! w = W_blocked"
      by (cases "threads s ! w"; cases "threads t ! w"; simp)+
    let ?t0 = "t\<lparr>threads := (threads t)[w := W_woken]\<rparr>"
    from pcs w len have sp: "spurious_wakeup w t = Some ?t0" by (simp add: spurious_wakeup_def)
    from pcs w len have "wakes (threads t) ((threads t)[w := W_woken])"
      by (intro wakes_update) simp_all
    then have "observe ?t0 = observe t" by (rule observe_wakes)
    with obs have obs0: "observe s = observe ?t0" by simp
    from pcs w len have same: "threads ?t0 ! w = threads s ! w" by simp
    from worker_alike [OF obs0 same Work(2)] obtain t' where t': "worker_loop w ?t0 = Some t'"
      "observe s' = observe t'" "callers t' = callers ?t0" "callers s' = callers s" by blast
    with sp have "exec rv' [Spurious w, Work w] t = Some t'"
      by (simp add: step_Work step_Spurious)
    with t' show ?thesis by (intro exI [of _ "[Spurious w, Work w]"]) auto
  qed
next
  case (Spurious w)
  from spurious_wakes [OF Spurious(2)] obtain ts' where "s' = s\<lparr>threads := ts'\<rparr>"
    "wakes (threads s) ts'" by blast
  with obs observe_wakes [of s ts'] have "observe s' = observe t" "callers s' = callers s"
    by simp_all
  then show ?thesis by (intro exI [of _ "[]"]) auto
next
  case (Call c f)
  with env show ?thesis by blast
next
  case (Step c k)
  with env show ?thesis by blast
next
  case (Reset n)
  from obs have len: "length (threads t) = length (threads s)" by (rule observe_length)
  from obs Reset have d: "destructor t = D_alive" by (simp add: observe_eq_iff)
  then have "exec rv' [Reset n] t = Some (snd (reset n t))" by (simp add: step_Reset)
  moreover from obs Reset len have "observe s' = observe (snd (reset n t))"
    by (simp add: observe_eq_iff reset_frame)
  moreover from Reset have "callers s' = callers s" "callers (snd (reset n t)) = callers t"
    by (simp_all add: reset_frame)
  ultimately show ?thesis by (intro exI [of _ "[Reset n]"]) auto
next
  case Destroy
  from obs have len: "length (threads t) = length (threads s)" by (rule observe_length)
  from obs have eq: "running t = running s" "destructor t = destructor s"
    by (simp_all add: observe_eq_iff)
  from Destroy(2) have "\<exists>t'. ThreadPool_destructor t = Some t' \<and> observe s' = observe t'
      \<and> callers t' = callers t \<and> callers s' = callers s"
  proof (cases rule: destructor_cases)
    case Stop
    with obs eq show ?thesis by (simp add: ThreadPool_destructor_def observe_eq_iff)
  next
    case Notify
    from notify_all_wakes [of s] obtain ts1 where s1: "cv_notify_all s = s\<lparr>threads := ts1\<rparr>"
      "wakes (threads s) ts1" by blast
    from notify_all_wakes [of t] obtain ts2 where t1: "cv_notify_all t = t\<lparr>threads := ts2\<rparr>"
      "wakes (threads t) ts2" by blast
    from s1 t1 obs have "observe (cv_notify_all s) = observe (cv_notify_all t)"
      by (simp add: observe_wakes)
    then have "observe ((cv_notify_all s)\<lparr>destructor := D_join 0\<rparr>)
        = observe ((cv_notify_all t)\<lparr>destructor := D_join 0\<rparr>)"
      by (simp add: observe_eq_iff)
    with Notify eq s1 t1 show ?thesis by (simp add: ThreadPool_destructor_def)
  next
    case (Join i)
    from obs Join(2) have "view (threads t ! i) = view (threads s ! i)" by (rule observe_view)
    with Join have "threads t ! i = W_done" by (simp add: view_done)
    with Join obs eq len show ?thesis by (simp add: ThreadPool_destructor_def observe_eq_iff)
  next
    case (Finish i)
    with obs eq len show ?thesis by (simp add: ThreadPool_destructor_def observe_eq_iff)
  qed
  then obtain t' where t': "ThreadPool_destructor t = Some t'" "observe s' = observe t'"
    "callers t' = callers t" "callers s' = callers s" by blast
  then have "exec rv' [Destroy] t = Some t'" by (simp add: step_Destroy)
  with t' show ?thesis by (intro exI [of _ "[Destroy]"]) auto
qed



lemma sync_pushes:
  "sync p1 p2 \<Longrightarrow> sync (map (\<lambda>task. Emplace (g task)) tasks @ p1)
     (map (\<lambda>task. Emplace (g task)) tasks @ p2)"
  by (induction tasks) (auto intro: sync.intros)

lemma program_sync:
  assumes "shared (Call c f)"
  shows "\<exists>p1 p2. program Rev1 f x = Some p1 \<and> program Rev2 f y = Some p2 \<and> sync p1 p2
      \<and> \<not> blocking f"
proof (cases f)
  case (Detach_task task)
  then show ?thesis by (simp add: detach_task_v1_def detach_task_def sync.intros)
next
  case (Detach_tasks tasks)
  have "sync (map (\<lambda>task. Emplace (Plain task)) tasks @ [Notify_all, Unlock])
      (map (\<lambda>task. Emplace (Plain task)) tasks @ [Unlock, Notify_all])"
    by (intro sync_pushes sync.intros) simp
  with Detach_tasks show ?thesis
    by (simp add: detach_tasks_v1_def detach_tasks_def sync.intros)
qed (use assms in simp_all)

lemma frames_Idle: "frames x y \<Longrightarrow> (x = Idle) = (y = Idle)"
  by (cases x; cases y) simp_all

lemma frames_Running1:
  assumes "frames (Running f m p1) y"
  obtains p2 where "y = Running f m p2" "sync p1 p2"
  using assms by (cases y) auto

lemma frames_Running2:
  assumes "frames x (Running f m p2)"
  obtains p1 where "x = Running f m p1" "sync p1 p2"
  using assms by (cases x) auto

lemma sim_frames: "sim s1 s2 \<Longrightarrow> frames (callers s1 c) (callers s2 c)"
  by (simp add: sim_def)

lemma sim_observe: "sim s1 s2 \<Longrightarrow> observe s1 = observe s2"
  by (simp add: sim_def)

lemma sim_env:
  assumes "sim s1 s2" "observe t1 = observe t2" "callers t1 = callers s1" "callers t2 = callers s2"
  shows "sim t1 t2"
  using assms by (simp add: sim_def)

lemma sim_frame:
  assumes "sim s1 s2" and "observe t1 = observe t2"
    and "callers t1 = (callers s1)(c := x)" "callers t2 = (callers s2)(c := y)" "frames x y"
  shows "sim t1 t2"
  using assms by (simp add: sim_def)

lemma sim_stutter1:
  assumes "sim s1 s2" and "observe t1 = observe s2"
    and "callers t1 = (callers s1)(c := x)" "frames x (callers s2 c)"
  shows "sim t1 s2"
  using assms by (simp add: sim_def)

lemma sim_stutter2:
  assumes "sim s1 s2" and "observe s1 = observe t2"
    and "callers t2 = (callers s2)(c := y)" "frames (callers s1 c) y"
  shows "sim s1 t2"
  using assms by (simp add: sim_def)

lemma notify_step:
  assumes "callers s c = Running f m (i # prog)" "notification i"
  shows "\<exists>k ts'. caller_step c k s
      = Some (s\<lparr>threads := ts', callers := (callers s)(c := Running f m prog)\<rparr>)
    \<and> wakes (threads s) ts'"
proof (cases i)
  case Notify_one
  from notify_one_possible obtain k t where k: "cv_notify_one k s = Some t" by blast
  from notify_one_wakes [OF k] obtain ts' where ts': "t = s\<lparr>threads := ts'\<rparr>"
    "wakes (threads s) ts'" by blast
  with assms Notify_one k have "caller_step c k s
      = Some (s\<lparr>threads := ts', callers := (callers s)(c := Running f m prog)\<rparr>)"
    by (simp add: caller_step_def)
  with ts'(2) show ?thesis by blast
next
  case Notify_all
  from notify_all_wakes [of s] obtain ts' where ts': "cv_notify_all s = s\<lparr>threads := ts'\<rparr>"
    "wakes (threads s) ts'" by blast
  with assms Notify_all have "caller_step c 0 s
      = Some (s\<lparr>threads := ts', callers := (callers s)(c := Running f m prog)\<rparr>)"
    by (simp add: caller_step_def)
  with ts'(2) show ?thesis by blast
qed (use assms in simp_all)

lemma sim_call_12:
  assumes sim: "sim s1 s2" and sh: "shared (Call c f)" and st: "call Rev1 c f s1 = Some s1'"
  shows "\<exists>s2'. call Rev2 c f s2 = Some s2' \<and> sim s1' s2'"
proof -
  from program_sync [OF sh, of "next_sem s1" "next_sem s2"] obtain p1 p2
    where p: "program Rev1 f (next_sem s1) = Some p1" "program Rev2 f (next_sem s2) = Some p2"
      "sync p1 p2" "\<not> blocking f" by blast
  from st have idle: "callers s1 c = Idle" by (cases "callers s1 c") (simp_all add: call_def)
  with sim_frames [OF sim, of c] frames_Idle [of "callers s1 c" "callers s2 c"]
  have idle2: "callers s2 c = Idle" by simp
  from st idle p have s1': "s1' = s1\<lparr>callers := (callers s1)(c := Running f None p1)\<rparr>"
    by (simp add: call_def)
  let ?s2' = "s2\<lparr>callers := (callers s2)(c := Running f None p2)\<rparr>"
  from idle2 p have "call Rev2 c f s2 = Some ?s2'" by (simp add: call_def)
  moreover from sim_observe [OF sim] s1' have "observe s1' = observe ?s2'"
    by (simp add: observe_eq_iff)
  with sim s1' p(3) have "sim s1' ?s2'"
    by (intro sim_frame [OF sim, where c = c and x = "Running f None p1"
          and y = "Running f None p2"]) simp_all
  ultimately show ?thesis by blast
qed

lemma sim_call_21:
  assumes sim: "sim s1 s2" and sh: "shared (Call c f)" and st: "call Rev2 c f s2 = Some s2'"
  shows "\<exists>s1'. call Rev1 c f s1 = Some s1' \<and> sim s1' s2'"
proof -
  from program_sync [OF sh, of "next_sem s1" "next_sem s2"] obtain p1 p2
    where p: "program Rev1 f (next_sem s1) = Some p1" "program Rev2 f (next_sem s2) = Some p2"
      "sync p1 p2" "\<not> blocking f" by blast
  from st have idle2: "callers s2 c = Idle" by (cases "callers s2 c") (simp_all add: call_def)
  with sim_frames [OF sim, of c] frames_Idle [of "callers s1 c" "callers s2 c"]
  have idle: "callers s1 c = Idle" by simp
  from st idle2 p have s2': "s2' = s2\<lparr>callers := (callers s2)(c := Running f None p2)\<rparr>"
    by (simp add: call_def)
  let ?s1' = "s1\<lparr>callers := (callers s1)(c := Running f None p1)\<rparr>"
  from idle p have "call Rev1 c f s1 = Some ?s1'" by (simp add: call_def)
  moreover from sim_observe [OF sim] s2' have "observe ?s1' = observe s2'"
    by (simp add: observe_eq_iff)
  with sim s2' p(3) have "sim ?s1' s2'"
    by (intro sim_frame [OF sim, where c = c and x = "Running f None p1"
          and y = "Running f None p2"]) simp_all
  ultimately show ?thesis by blast
qed


lemma sync_Nil1: "sync [] p2 \<Longrightarrow> p2 = [] \<or> (\<exists>i. p2 = [i] \<and> notification i)"
  by (erule sync.cases) auto

lemma sync_Lock1: "sync (Lock # p1) p2 \<Longrightarrow> \<exists>q. p2 = Lock # q \<and> sync p1 q"
  by (erule sync.cases) auto

lemma sync_Emplace1: "sync (Emplace j # p1) p2 \<Longrightarrow> \<exists>q. p2 = Emplace j # q \<and> sync p1 q"
  by (erule sync.cases) auto

lemma sync_Unlock1:
  "sync (Unlock # p1) p2 \<Longrightarrow> p1 = [] \<and> (\<exists>i. p2 = [Unlock, i] \<and> notification i)"
  by (erule sync.cases) auto

lemma sync_Notify1: "sync (i # p1) p2 \<Longrightarrow> notification i \<Longrightarrow> p1 = [Unlock] \<and> p2 = [Unlock, i]"
  by (erule sync.cases) auto

lemma sync_For1: "\<not> sync (For_emplace loop_body sem n stop # p1) p2"
  by (auto elim: sync.cases)

lemma sync_Acquire1: "\<not> sync (Acquire sem # p1) p2"
  by (auto elim: sync.cases)

lemma sync_Nil2: "sync p1 [] \<Longrightarrow> p1 = []"
  by (erule sync.cases) auto

lemma sync_Lock2: "sync p1 (Lock # p2) \<Longrightarrow> \<exists>q. p1 = Lock # q \<and> sync q p2"
  by (erule sync.cases) auto

lemma sync_Emplace2: "sync p1 (Emplace j # p2) \<Longrightarrow> \<exists>q. p1 = Emplace j # q \<and> sync q p2"
  by (erule sync.cases) auto

lemma sync_Unlock2:
  "sync p1 (Unlock # p2) \<Longrightarrow>
     \<exists>i. p2 = [i] \<and> notification i \<and> (p1 = [i, Unlock] \<or> p1 = [Unlock])"
  by (erule sync.cases) auto

lemma sync_Notify2: "sync p1 (i # p2) \<Longrightarrow> notification i \<Longrightarrow> p1 = [] \<and> p2 = []"
  by (erule sync.cases) auto

lemma sync_For2: "\<not> sync p1 (For_emplace loop_body sem n stop # p2)"
  by (auto elim: sync.cases)

lemma sync_Acquire2: "\<not> sync p1 (Acquire sem # p2)"
  by (auto elim: sync.cases)

lemma return_step:
  "callers s c = Running f m [] \<Longrightarrow> caller_step c k s = Some (s\<lparr>callers := (callers s)(c := Idle)\<rparr>)"
  by (simp add: caller_step_def)

lemma unlock_step:
  "callers s c = Running f m (Unlock # prog) \<Longrightarrow>
     caller_step c k s
       = Some (s\<lparr>data_lock := None, callers := (callers s)(c := Running f m prog)\<rparr>)"
  by (simp add: caller_step_def)

lemma sim_caller_12:
  assumes sim: "sim s1 s2" and st: "caller_step c k s1 = Some s1'"
  shows "\<exists>es' s2'. exec Rev2 es' s2 = Some s2' \<and> sim s1' s2' \<and> list_all shared es'"
proof -
  note obs = sim_observe [OF sim]
  from obs have eq: "data_lock s2 = data_lock s1" "jobs s2 = jobs s1" "enqueued s2 = enqueued s1"
    by (simp_all add: observe_eq_iff)
  from st show ?thesis
  proof (cases rule: caller_step_cases)
    case (Return f m)
    with sim_frames [OF sim, of c] obtain p2 where p2: "callers s2 c = Running f m p2" "sync [] p2"
      by (auto elim: frames_Running1)
    from sync_Nil1 [OF p2(2)] consider "p2 = []" | i where "p2 = [i]" "notification i" by blast
    then show ?thesis
    proof cases
      case 1
      let ?t = "s2\<lparr>callers := (callers s2)(c := Idle)\<rparr>"
      from 1 p2 have "exec Rev2 [Step c 0] s2 = Some ?t" by (simp add: step_Step return_step)
      moreover from obs Return have "observe s1' = observe ?t" by (simp add: observe_eq_iff)
      with Return have "sim s1' ?t"
        by (intro sim_frame [OF sim, where c = c and x = Idle and y = Idle]) simp_all
      ultimately show ?thesis by (intro exI [of _ "[Step c 0]"]) auto
    next
      case 2
      from notify_step [of s2 c f m i "[]"] 2 p2 obtain k' ts' where
        n: "caller_step c k' s2
            = Some (s2\<lparr>threads := ts', callers := (callers s2)(c := Running f m [])\<rparr>)"
          "wakes (threads s2) ts'"
        by auto
      let ?u = "s2\<lparr>threads := ts', callers := (callers s2)(c := Running f m [])\<rparr>"
      let ?t = "s2\<lparr>threads := ts', callers := (callers s2)(c := Idle)\<rparr>"
      have "caller_step c 0 ?u = Some (?u\<lparr>callers := (callers ?u)(c := Idle)\<rparr>)"
        by (intro return_step) simp
      then have "caller_step c 0 ?u = Some ?t" by simp
      with n(1) have "exec Rev2 [Step c k', Step c 0] s2 = Some ?t" by (simp add: step_Step)
      moreover from obs Return n(2) have "observe s1' = observe ?t"
        by (simp add: observe_eq_iff view_wakes)
      with Return have "sim s1' ?t"
        by (intro sim_frame [OF sim, where c = c and x = Idle and y = Idle]) simp_all
      ultimately show ?thesis by (intro exI [of _ "[Step c k', Step c 0]"]) auto
    qed
  next
    case (Lock f m prog)
    with sim_frames [OF sim, of c] obtain p2 where "callers s2 c = Running f m p2"
      "sync (Lock # prog) p2" by (auto elim: frames_Running1)
    with sync_Lock1 obtain q where q: "callers s2 c = Running f m (Lock # q)" "sync prog q"
      by blast
    let ?t = "s2\<lparr>data_lock := Some (Caller c), callers := (callers s2)(c := Running f m q)\<rparr>"
    from q Lock eq have "exec Rev2 [Step c 0] s2 = Some ?t"
      by (simp add: step_Step caller_step_def)
    moreover from obs Lock have "observe s1' = observe ?t" by (simp add: observe_eq_iff)
    with Lock q have "sim s1' ?t"
      by (intro sim_frame [OF sim, where c = c and x = "Running f m prog"
            and y = "Running f m q"]) simp_all
    ultimately show ?thesis by (intro exI [of _ "[Step c 0]"]) auto
  next
    case (Unlock f m prog)
    with sim_frames [OF sim, of c] obtain p2 where "callers s2 c = Running f m p2"
      "sync (Unlock # prog) p2" by (auto elim: frames_Running1)
    with sync_Unlock1 obtain i where i: "prog = []" "callers s2 c = Running f m [Unlock, i]"
      "notification i" by blast
    let ?t = "s2\<lparr>data_lock := None, callers := (callers s2)(c := Running f m [i])\<rparr>"
    from i have "exec Rev2 [Step c 0] s2 = Some ?t" by (simp add: step_Step unlock_step)
    moreover from obs Unlock have "observe s1' = observe ?t" by (simp add: observe_eq_iff)
    with Unlock i have "sim s1' ?t"
      by (intro sim_frame [OF sim, where c = c and x = "Running f m []"
            and y = "Running f m [i]"]) (simp_all add: sync.intros)
    ultimately show ?thesis by (intro exI [of _ "[Step c 0]"]) auto
  next
    case (Emplace f m prog j)
    with sim_frames [OF sim, of c] obtain p2 where "callers s2 c = Running f m p2"
      "sync (Emplace j # prog) p2" by (auto elim: frames_Running1)
    with sync_Emplace1 obtain q where q: "callers s2 c = Running f m (Emplace j # q)" "sync prog q"
      by blast
    let ?t = "s2\<lparr>jobs := jobs s2 @ [j], enqueued := enqueued s2 @ [j],
        callers := (callers s2)(c := Running f m q)\<rparr>"
    from q have "exec Rev2 [Step c 0] s2 = Some ?t" by (simp add: step_Step caller_step_def)
    moreover from obs Emplace have "observe s1' = observe ?t" by (simp add: observe_eq_iff)
    with Emplace q have "sim s1' ?t"
      by (intro sim_frame [OF sim, where c = c and x = "Running f m prog"
            and y = "Running f m q"]) simp_all
    ultimately show ?thesis by (intro exI [of _ "[Step c 0]"]) auto
  next
    case (For_more f m prog loop_body sem n stop)
    with sim_frames [OF sim, of c] sync_For1 show ?thesis by (auto elim: frames_Running1)
  next
    case (For_exit f m prog loop_body sem n stop)
    with sim_frames [OF sim, of c] sync_For1 show ?thesis by (auto elim: frames_Running1)
  next
    case (Notify_one f m prog s1a)
    with sim_frames [OF sim, of c] obtain p2 where "callers s2 c = Running f m p2"
      "sync (Notify_one # prog) p2" by (auto elim: frames_Running1)
    with sync_Notify1 [of Notify_one prog p2]
    have p: "prog = [Unlock]" "callers s2 c = Running f m [Unlock, Notify_one]" by simp_all
    from notify_one_wakes [OF Notify_one(2)] obtain ts' where ts': "s1a = s1\<lparr>threads := ts'\<rparr>"
      "wakes (threads s1) ts'" by blast
    from obs Notify_one ts' p have "observe s1' = observe s2"
      by (simp add: observe_eq_iff view_wakes)
    with Notify_one ts' p have "sim s1' s2"
      by (intro sim_stutter1 [OF sim, where c = c and x = "Running f m [Unlock]"])
         (simp_all add: sync.intros)
    then show ?thesis by (intro exI [of _ "[]"]) auto
  next
    case (Notify_all f m prog)
    with sim_frames [OF sim, of c] obtain p2 where "callers s2 c = Running f m p2"
      "sync (Notify_all # prog) p2" by (auto elim: frames_Running1)
    with sync_Notify1 [of Notify_all prog p2]
    have p: "prog = [Unlock]" "callers s2 c = Running f m [Unlock, Notify_all]" by simp_all
    from notify_all_wakes [of s1] obtain ts' where ts': "cv_notify_all s1 = s1\<lparr>threads := ts'\<rparr>"
      "wakes (threads s1) ts'" by blast
    from obs Notify_all ts' p have "observe s1' = observe s2"
      by (simp add: observe_eq_iff view_wakes)
    with Notify_all ts' p have "sim s1' s2"
      by (intro sim_stutter1 [OF sim, where c = c and x = "Running f m [Unlock]"])
         (simp_all add: sync.intros)
    then show ?thesis by (intro exI [of _ "[]"]) auto
  next
    case (Acquire f m prog sem)
    with sim_frames [OF sim, of c] sync_Acquire1 show ?thesis by (auto elim: frames_Running1)
  qed
qed


lemma sim_caller_21:
  assumes sim: "sim s1 s2" and st: "caller_step c k s2 = Some s2'"
  shows "\<exists>es' s1'. exec Rev1 es' s1 = Some s1' \<and> sim s1' s2' \<and> list_all shared es'"
proof -
  note obs = sim_observe [OF sim]
  from obs have eq: "data_lock s1 = data_lock s2" "jobs s1 = jobs s2" "enqueued s1 = enqueued s2"
    by (simp_all add: observe_eq_iff)
  from st show ?thesis
  proof (cases rule: caller_step_cases)
    case (Return f m)
    with sim_frames [OF sim, of c] obtain p1 where "callers s1 c = Running f m p1" "sync p1 []"
      by (auto elim: frames_Running2)
    with sync_Nil2 have p1: "callers s1 c = Running f m []" by blast
    let ?t = "s1\<lparr>callers := (callers s1)(c := Idle)\<rparr>"
    from p1 have "exec Rev1 [Step c 0] s1 = Some ?t" by (simp add: step_Step return_step)
    moreover from obs Return have "observe ?t = observe s2'" by (simp add: observe_eq_iff)
    with Return have "sim ?t s2'"
      by (intro sim_frame [OF sim, where c = c and x = Idle and y = Idle]) simp_all
    ultimately show ?thesis by (intro exI [of _ "[Step c 0]"]) auto
  next
    case (Lock f m prog)
    with sim_frames [OF sim, of c] obtain p1 where "callers s1 c = Running f m p1"
      "sync p1 (Lock # prog)" by (auto elim: frames_Running2)
    with sync_Lock2 obtain q where q: "callers s1 c = Running f m (Lock # q)" "sync q prog"
      by blast
    let ?t = "s1\<lparr>data_lock := Some (Caller c), callers := (callers s1)(c := Running f m q)\<rparr>"
    from q Lock eq have "exec Rev1 [Step c 0] s1 = Some ?t"
      by (simp add: step_Step caller_step_def)
    moreover from obs Lock have "observe ?t = observe s2'" by (simp add: observe_eq_iff)
    with Lock q have "sim ?t s2'"
      by (intro sim_frame [OF sim, where c = c and x = "Running f m q"
            and y = "Running f m prog"]) simp_all
    ultimately show ?thesis by (intro exI [of _ "[Step c 0]"]) auto
  next
    case (Unlock f m prog)
    with sim_frames [OF sim, of c] obtain p1 where p1: "callers s1 c = Running f m p1"
      "sync p1 (Unlock # prog)" by (auto elim: frames_Running2)
    from sync_Unlock2 [OF p1(2)] obtain i where i: "prog = [i]" "notification i"
      "p1 = [i, Unlock] \<or> p1 = [Unlock]" by blast
    from i(3) show ?thesis
    proof
      assume "p1 = [i, Unlock]"
      with p1 have fr: "callers s1 c = Running f m [i, Unlock]" by simp
      from notify_step [OF fr i(2)] obtain k' ts' where
        n: "caller_step c k' s1
            = Some (s1\<lparr>threads := ts', callers := (callers s1)(c := Running f m [Unlock])\<rparr>)"
          "wakes (threads s1) ts'"
        by auto
      let ?u = "s1\<lparr>threads := ts', callers := (callers s1)(c := Running f m [Unlock])\<rparr>"
      let ?t = "s1\<lparr>threads := ts', data_lock := None,
          callers := (callers s1)(c := Running f m [])\<rparr>"
      have "caller_step c 0 ?u
          = Some (?u\<lparr>data_lock := None, callers := (callers ?u)(c := Running f m [])\<rparr>)"
        by (intro unlock_step) simp
      then have "caller_step c 0 ?u = Some ?t" by simp
      with n(1) have "exec Rev1 [Step c k', Step c 0] s1 = Some ?t" by (simp add: step_Step)
      moreover from obs Unlock n(2) have "observe ?t = observe s2'"
        by (simp add: observe_eq_iff view_wakes)
      with Unlock i have "sim ?t s2'"
        by (intro sim_frame [OF sim, where c = c and x = "Running f m []"
              and y = "Running f m [i]"]) (simp_all add: sync.intros)
      ultimately show ?thesis by (intro exI [of _ "[Step c k', Step c 0]"]) auto
    next
      assume "p1 = [Unlock]"
      with p1 have fr: "callers s1 c = Running f m [Unlock]" by simp
      let ?t = "s1\<lparr>data_lock := None, callers := (callers s1)(c := Running f m [])\<rparr>"
      from fr have "exec Rev1 [Step c 0] s1 = Some ?t" by (simp add: step_Step unlock_step)
      moreover from obs Unlock have "observe ?t = observe s2'" by (simp add: observe_eq_iff)
      with Unlock i have "sim ?t s2'"
        by (intro sim_frame [OF sim, where c = c and x = "Running f m []"
              and y = "Running f m [i]"]) (simp_all add: sync.intros)
      ultimately show ?thesis by (intro exI [of _ "[Step c 0]"]) auto
    qed
  next
    case (Emplace f m prog j)
    with sim_frames [OF sim, of c] obtain p1 where "callers s1 c = Running f m p1"
      "sync p1 (Emplace j # prog)" by (auto elim: frames_Running2)
    with sync_Emplace2 obtain q where q: "callers s1 c = Running f m (Emplace j # q)" "sync q prog"
      by blast
    let ?t = "s1\<lparr>jobs := jobs s1 @ [j], enqueued := enqueued s1 @ [j],
        callers := (callers s1)(c := Running f m q)\<rparr>"
    from q have "exec Rev1 [Step c 0] s1 = Some ?t" by (simp add: step_Step caller_step_def)
    moreover from obs Emplace have "observe ?t = observe s2'" by (simp add: observe_eq_iff)
    with Emplace q have "sim ?t s2'"
      by (intro sim_frame [OF sim, where c = c and x = "Running f m q"
            and y = "Running f m prog"]) simp_all
    ultimately show ?thesis by (intro exI [of _ "[Step c 0]"]) auto
  next
    case (For_more f m prog loop_body sem n stop)
    with sim_frames [OF sim, of c] sync_For2 show ?thesis by (auto elim: frames_Running2)
  next
    case (For_exit f m prog loop_body sem n stop)
    with sim_frames [OF sim, of c] sync_For2 show ?thesis by (auto elim: frames_Running2)
  next
    case (Notify_one f m prog s2a)
    with sim_frames [OF sim, of c] obtain p1 where "callers s1 c = Running f m p1"
      "sync p1 (Notify_one # prog)" by (auto elim: frames_Running2)
    with sync_Notify2 [of p1 Notify_one prog]
    have p: "prog = []" "callers s1 c = Running f m []" by simp_all
    from notify_one_wakes [OF Notify_one(2)] obtain ts' where ts': "s2a = s2\<lparr>threads := ts'\<rparr>"
      "wakes (threads s2) ts'" by blast
    from obs Notify_one ts' p have "observe s1 = observe s2'"
      by (simp add: observe_eq_iff view_wakes)
    with Notify_one ts' p have "sim s1 s2'"
      by (intro sim_stutter2 [OF sim, where c = c and y = "Running f m []"])
         (simp_all add: sync.intros)
    then show ?thesis by (intro exI [of _ "[]"]) auto
  next
    case (Notify_all f m prog)
    with sim_frames [OF sim, of c] obtain p1 where "callers s1 c = Running f m p1"
      "sync p1 (Notify_all # prog)" by (auto elim: frames_Running2)
    with sync_Notify2 [of p1 Notify_all prog]
    have p: "prog = []" "callers s1 c = Running f m []" by simp_all
    from notify_all_wakes [of s2] obtain ts' where ts': "cv_notify_all s2 = s2\<lparr>threads := ts'\<rparr>"
      "wakes (threads s2) ts'" by blast
    from obs Notify_all ts' p have "observe s1 = observe s2'"
      by (simp add: observe_eq_iff view_wakes)
    with Notify_all ts' p have "sim s1 s2'"
      by (intro sim_stutter2 [OF sim, where c = c and y = "Running f m []"])
         (simp_all add: sync.intros)
    then show ?thesis by (intro exI [of _ "[]"]) auto
  next
    case (Acquire f m prog sem)
    with sim_frames [OF sim, of c] sync_Acquire2 show ?thesis by (auto elim: frames_Running2)
  qed
qed

lemma sim_step_12:
  assumes sim: "sim s1 s2" and sh: "shared e" and st: "step Rev1 e s1 = Some s1'"
  shows "\<exists>es' s2'. exec Rev2 es' s2 = Some s2' \<and> sim s1' s2' \<and> list_all shared es'"
proof (cases e)
  case (Call c f)
  with st have "call Rev1 c f s1 = Some s1'" by (simp add: step_Call)
  from sim_call_12 [OF sim _ this] sh Call obtain s2' where "call Rev2 c f s2 = Some s2'"
    "sim s1' s2'" by blast
  with sh Call show ?thesis by (intro exI [of _ "[e]"]) (auto simp: step_Call)
next
  case (Step c k)
  with st have "caller_step c k s1 = Some s1'" by (simp add: step_Step)
  from sim_caller_12 [OF sim this] show ?thesis .
next
  case (Work w)
  with env_step [OF sim_observe [OF sim] st, of Rev2] sim show ?thesis
    by (auto intro: sim_env)
next
  case (Spurious w)
  with env_step [OF sim_observe [OF sim] st, of Rev2] sim show ?thesis
    by (auto intro: sim_env)
next
  case (Reset n)
  with env_step [OF sim_observe [OF sim] st, of Rev2] sim show ?thesis
    by (auto intro: sim_env)
next
  case Destroy
  with env_step [OF sim_observe [OF sim] st, of Rev2] sim show ?thesis
    by (auto intro: sim_env)
qed


lemma sim_step_21:
  assumes sim: "sim s1 s2" and sh: "shared e" and st: "step Rev2 e s2 = Some s2'"
  shows "\<exists>es' s1'. exec Rev1 es' s1 = Some s1' \<and> sim s1' s2' \<and> list_all shared es'"
proof -
  from sim_observe [OF sim] have obs: "observe s2 = observe s1" by simp
  have env: "\<exists>es' s1'. exec Rev1 es' s1 = Some s1' \<and> sim s1' s2' \<and> list_all shared es'"
    if "\<And>c f. e \<noteq> Call c f" "\<And>c k. e \<noteq> Step c k"
  proof -
    from env_step [OF obs st that, of Rev1] obtain es' s1' where
      "exec Rev1 es' s1 = Some s1'" "observe s2' = observe s1'" "callers s1' = callers s1"
      "callers s2' = callers s2" "list_all shared es'" by blast
    moreover from this have "sim s1' s2'" by (intro sim_env [OF sim]) simp_all
    ultimately show ?thesis by blast
  qed
  show ?thesis
  proof (cases e)
    case (Call c f)
    with st have "call Rev2 c f s2 = Some s2'" by (simp add: step_Call)
    from sim_call_21 [OF sim _ this] sh Call obtain s1' where "call Rev1 c f s1 = Some s1'"
      "sim s1' s2'" by blast
    with sh Call show ?thesis by (intro exI [of _ "[e]"]) (auto simp: step_Call)
  next
    case (Step c k)
    with st have "caller_step c k s2 = Some s2'" by (simp add: step_Step)
    from sim_caller_21 [OF sim this] show ?thesis .
  qed (use env in simp_all)
qed

lemma sim_exec_12:
  assumes "sim s1 s2" "list_all shared es" "exec Rev1 es s1 = Some s1'"
  shows "\<exists>es' s2'. exec Rev2 es' s2 = Some s2' \<and> sim s1' s2' \<and> list_all shared es'"
  using assms
proof (induction es arbitrary: s1 s2)
  case Nil
  then have "exec Rev2 [] s2 = Some s2 \<and> sim s1' s2 \<and> list_all shared []" by simp
  then show ?case by blast
next
  case (Cons e es)
  from Cons.prems(3) obtain t1 where t1: "step Rev1 e s1 = Some t1" "exec Rev1 es t1 = Some s1'"
    by (auto split: option.splits)
  from Cons.prems(2) have sh: "shared e" "list_all shared es" by simp_all
  from sim_step_12 [OF Cons.prems(1) sh(1) t1(1)] obtain es0 t2 where
    0: "exec Rev2 es0 s2 = Some t2" "sim t1 t2" "list_all shared es0" by blast
  from Cons.IH [OF 0(2) sh(2) t1(2)] obtain es1 s2' where
    1: "exec Rev2 es1 t2 = Some s2'" "sim s1' s2'" "list_all shared es1" by blast
  from 0 1 have "exec Rev2 (es0 @ es1) s2 = Some s2'" "list_all shared (es0 @ es1)"
    by (simp_all add: exec_append)
  with 1(2) show ?case by blast
qed

lemma sim_exec_21:
  assumes "sim s1 s2" "list_all shared es" "exec Rev2 es s2 = Some s2'"
  shows "\<exists>es' s1'. exec Rev1 es' s1 = Some s1' \<and> sim s1' s2' \<and> list_all shared es'"
  using assms
proof (induction es arbitrary: s1 s2)
  case Nil
  then have "exec Rev1 [] s1 = Some s1 \<and> sim s1 s2' \<and> list_all shared []" by simp
  then show ?case by blast
next
  case (Cons e es)
  from Cons.prems(3) obtain t2 where t2: "step Rev2 e s2 = Some t2" "exec Rev2 es t2 = Some s2'"
    by (auto split: option.splits)
  from Cons.prems(2) have sh: "shared e" "list_all shared es" by simp_all
  from sim_step_21 [OF Cons.prems(1) sh(1) t2(1)] obtain es0 t1 where
    0: "exec Rev1 es0 s1 = Some t1" "sim t1 t2" "list_all shared es0" by blast
  from Cons.IH [OF 0(2) sh(2) t2(2)] obtain es1 s1' where
    1: "exec Rev1 es1 t1 = Some s1'" "sim s1' s2'" "list_all shared es1" by blast
  from 0 1 have "exec Rev1 (es0 @ es1) s1 = Some s1'" "list_all shared (es0 @ es1)"
    by (simp_all add: exec_append)
  with 1(2) show ?case by blast
qed

lemma sim_new: "sim (ThreadPool n) (ThreadPool n)"
  by (simp add: sim_def ThreadPool_def reset_frame new_pool_def)

lemma revisions_simulate:
  assumes "list_all shared es"
  shows "exec Rev1 es (ThreadPool n) = Some s1 \<Longrightarrow>
      \<exists>es' s2. list_all shared es' \<and> exec Rev2 es' (ThreadPool n) = Some s2
        \<and> observe s2 = observe s1"
    and "exec Rev2 es (ThreadPool n) = Some s2 \<Longrightarrow>
      \<exists>es' s1. list_all shared es' \<and> exec Rev1 es' (ThreadPool n) = Some s1
        \<and> observe s1 = observe s2"
proof -
  assume "exec Rev1 es (ThreadPool n) = Some s1"
  from sim_exec_12 [OF sim_new assms this] obtain es' s2 where
    "exec Rev2 es' (ThreadPool n) = Some s2" "sim s1 s2" "list_all shared es'" by blast
  moreover from this have "observe s2 = observe s1" by (simp add: sim_def)
  ultimately show "\<exists>es' s2. list_all shared es' \<and> exec Rev2 es' (ThreadPool n) = Some s2
      \<and> observe s2 = observe s1" by blast
next
  assume "exec Rev2 es (ThreadPool n) = Some s2"
  from sim_exec_21 [OF sim_new assms this] obtain es' s1 where
    "exec Rev1 es' (ThreadPool n) = Some s1" "sim s1 s2" "list_all shared es'" by blast
  moreover from this have "observe s1 = observe s2" by (simp add: sim_def)
  ultimately show "\<exists>es' s1. list_all shared es' \<and> exec Rev1 es' (ThreadPool n) = Some s1
      \<and> observe s1 = observe s2" by blast
qed

text \<open>
  A schedule that runs in both revisions keeps them level: the callers stay abreast, and
  the observations differ at most in the owner of the lock.
\<close>

lemma level_observe:
  "level s1 s2 \<Longrightarrow> observe (s1\<lparr>data_lock := None\<rparr>) = observe (s2\<lparr>data_lock := None\<rparr>)"
  by (simp add: level_def)

lemma level_eqs:
  assumes "level s1 s2"
  shows "running s2 = running s1" "jobs s2 = jobs s1" "sems s2 = sems s1"
    "next_sem s2 = next_sem s1" "destructor s2 = destructor s1" "enqueued s2 = enqueued s1"
    "dequeued s2 = dequeued s1" "started s2 = started s1" "finished s2 = finished s1"
    "map view (threads s2) = map view (threads s1)" "length (threads s2) = length (threads s1)"
proof -
  from level_observe [OF assms]
  show "running s2 = running s1" "jobs s2 = jobs s1" "sems s2 = sems s1"
    "next_sem s2 = next_sem s1" "destructor s2 = destructor s1" "enqueued s2 = enqueued s1"
    "dequeued s2 = dequeued s1" "started s2 = started s1" "finished s2 = finished s1"
    "map view (threads s2) = map view (threads s1)"
    by (simp_all add: observe_eq_iff)
  then show "length (threads s2) = length (threads s1)" by (metis length_map)
qed

lemma level_view:
  assumes "level s1 s2" "w < length (threads s1)"
  shows "view (threads s2 ! w) = view (threads s1 ! w)"
proof -
  note eq = level_eqs(10,11) [OF assms(1)]
  from eq(2) assms(2) have "w < length (threads s2)" by simp
  from nth_map [OF this, of view] nth_map [OF assms(2), of view] eq(1)
  show ?thesis by simp
qed

lemma level_lock:
  "level s1 s2 \<Longrightarrow> data_lock s1 = data_lock s2
     \<or> (data_lock s2 = None
        \<and> (\<exists>c f m i. data_lock s1 = Some (Caller c) \<and> callers s1 c = Running f m [Unlock]
              \<and> callers s2 c = Running f m [i]))"
  by (simp add: level_def)

lemma level_frames: "level s1 s2 \<Longrightarrow> aframes (callers s1 c) (callers s2 c)"
  by (simp add: level_def)

lemma levelI:
  assumes "observe (s1\<lparr>data_lock := None\<rparr>) = observe (s2\<lparr>data_lock := None\<rparr>)"
    and "\<And>c. aframes (callers s1 c) (callers s2 c)"
    and "data_lock s1 = data_lock s2
     \<or> (data_lock s2 = None
        \<and> (\<exists>c f m i. data_lock s1 = Some (Caller c) \<and> callers s1 c = Running f m [Unlock]
              \<and> callers s2 c = Running f m [i]))"
  shows "level s1 s2"
  using assms by (simp add: level_def)

lemma view_step:
  "view a = view b \<Longrightarrow> a \<noteq> W_blocked \<Longrightarrow> b \<noteq> W_blocked \<Longrightarrow> b = a"
  by (cases a; cases b) simp_all

lemma level_worker:
  assumes lv: "level s1 s2" and st1: "worker_loop w s1 = Some s1'"
    and st2: "worker_loop w s2 = Some s2'"
  shows "level s1' s2'"
proof -
  from st1 have w: "w < length (threads s1)" by (simp add: worker_loop_def split: if_splits)
  from st1 w have nb1: "threads s1 ! w \<noteq> W_blocked" by (auto simp: worker_loop_def)
  note eq = level_eqs [OF lv]
  from st2 w eq have nb2: "threads s2 ! w \<noteq> W_blocked" by (auto simp: worker_loop_def)
  from view_step [OF level_view [OF lv w, symmetric] nb1 nb2]
  have pc: "threads s2 ! w = threads s1 ! w" .
  note obs = level_observe [OF lv]
  note lk = level_lock [OF lv]
  note fr = level_frames [OF lv]
  from st1 show ?thesis
  proof (cases rule: worker_loop_cases)
    case While
    with st2 pc w eq have s2': "s2' = s2\<lparr>threads := (threads s2)[w := (if running s1 then W_lock else W_done)]\<rparr>"
      by (simp add: worker_loop_def)
    from While s2' obs eq lk fr show ?thesis
      by (intro levelI) (simp_all add: observe_eq_iff map_update)
  next
    case Lock
    with st2 pc w eq have s2': "data_lock s2 = None"
      "s2' = s2\<lparr>data_lock := Some (Worker w), threads := (threads s2)[w := W_pred]\<rparr>"
      by (simp_all add: worker_loop_def split: if_splits)
    from Lock s2' obs eq fr show ?thesis
      by (intro levelI) (simp_all add: observe_eq_iff map_update)
  next
    case Pred
    with st2 pc w eq have s2': "s2' = s2\<lparr>threads :=
        (threads s2)[w := (if jobs s1 \<noteq> [] \<or> \<not> running s1 then W_check else W_wait)]\<rparr>"
      by (simp add: worker_loop_def)
    from Pred s2' obs eq lk fr show ?thesis
      by (intro levelI) (simp_all add: observe_eq_iff map_update)
  next
    case Wait
    with st2 pc w eq have s2': "s2' = s2\<lparr>data_lock := None, threads := (threads s2)[w := W_blocked]\<rparr>"
      by (simp add: worker_loop_def)
    from Wait s2' obs eq fr show ?thesis
      by (intro levelI) (simp_all add: observe_eq_iff map_update)
  next
    case Woken
    with st2 pc w eq have s2': "data_lock s2 = None"
      "s2' = s2\<lparr>data_lock := Some (Worker w), threads := (threads s2)[w := W_pred]\<rparr>"
      by (simp_all add: worker_loop_def split: if_splits)
    from Woken s2' obs eq fr show ?thesis
      by (intro levelI) (simp_all add: observe_eq_iff map_update)
  next
    case Check_stop
    with st2 pc w eq have s2': "s2' = s2\<lparr>data_lock := None, threads := (threads s2)[w := W_done]\<rparr>"
      by (simp add: worker_loop_def)
    from Check_stop s2' obs eq fr show ?thesis
      by (intro levelI) (simp_all add: observe_eq_iff map_update)
  next
    case Check_go
    with st2 pc w eq have s2': "s2' = s2\<lparr>threads := (threads s2)[w := W_front]\<rparr>"
      by (simp add: worker_loop_def)
    from Check_go s2' obs eq lk fr show ?thesis
      by (intro levelI) (simp_all add: observe_eq_iff map_update)
  next
    case (Front j js)
    with st2 pc w eq have s2': "s2' = s2\<lparr>jobs := js, dequeued := dequeued s2 @ [j],
        threads := (threads s2)[w := W_unlock j]\<rparr>"
      by (simp add: worker_loop_def)
    from Front s2' obs eq lk fr show ?thesis
      by (intro levelI) (simp_all add: observe_eq_iff map_update)
  next
    case (Unlock j)
    with st2 pc w eq have s2': "s2' = s2\<lparr>data_lock := None, threads := (threads s2)[w := W_invoke j]\<rparr>"
      by (simp add: worker_loop_def)
    from Unlock s2' obs eq fr show ?thesis
      by (intro levelI) (simp_all add: observe_eq_iff map_update)
  next
    case (Invoke_plain j)
    with st2 pc w eq have s2': "s2' = s2\<lparr>started := started s2 @ [j], finished := finished s2 @ [j],
        threads := (threads s2)[w := W_while]\<rparr>"
      by (simp add: worker_loop_def)
    from Invoke_plain s2' obs eq lk fr show ?thesis
      by (intro levelI) (simp_all add: observe_eq_iff map_update)
  next
    case (Invoke_wrapper j sem)
    with st2 pc w eq have s2': "s2' = s2\<lparr>started := started s2 @ [j],
        threads := (threads s2)[w := W_release j]\<rparr>"
      by (simp add: worker_loop_def)
    from Invoke_wrapper s2' obs eq lk fr show ?thesis
      by (intro levelI) (simp_all add: observe_eq_iff map_update)
  next
    case (Release j)
    with st2 pc w eq have s2': "s2' = s2\<lparr>sems := (case sem_of j of None \<Rightarrow> sems s2
          | Some sem \<Rightarrow> (sems s2)(sem := Suc (sems s2 sem))),
        finished := finished s2 @ [j], threads := (threads s2)[w := W_while]\<rparr>"
      by (simp add: worker_loop_def)
    from Release s2' obs eq lk fr show ?thesis
      by (intro levelI) (simp_all add: observe_eq_iff map_update split: option.splits)
  qed
qed


lemma abreast_Nil: "abreast [] p2 \<Longrightarrow> p2 = []"
  by (erule abreast.cases) auto

lemma abreast_Lock: "abreast (Lock # p1) p2 \<Longrightarrow> \<exists>q. p2 = Lock # q \<and> abreast p1 q"
  by (erule abreast.cases) auto

lemma abreast_Emplace: "abreast (Emplace j # p1) p2 \<Longrightarrow> \<exists>q. p2 = Emplace j # q \<and> abreast p1 q"
  by (erule abreast.cases) auto

lemma abreast_Unlock:
  "abreast (Unlock # p1) p2 \<Longrightarrow> p1 = [] \<and> (\<exists>i. p2 = [i] \<and> notification i)"
  by (erule abreast.cases) auto

lemma abreast_Notify:
  "abreast (i # p1) p2 \<Longrightarrow> notification i \<Longrightarrow> p1 = [Unlock] \<and> p2 = [Unlock, i]"
  by (erule abreast.cases) auto

lemma abreast_For: "\<not> abreast (For_emplace loop_body sem n stop # p1) p2"
  by (auto elim: abreast.cases)

lemma abreast_Acquire: "\<not> abreast (Acquire sem # p1) p2"
  by (auto elim: abreast.cases)

lemma abreast_pushes:
  "abreast p1 p2 \<Longrightarrow> abreast (map (\<lambda>task. Emplace (g task)) tasks @ p1)
     (map (\<lambda>task. Emplace (g task)) tasks @ p2)"
  by (induction tasks) (auto intro: abreast.intros)

lemma program_abreast:
  assumes "program Rev1 f x = Some p1" "program Rev2 f y = Some p2"
  shows "abreast p1 p2 \<and> \<not> blocking f"
proof (cases f)
  case (Detach_task task)
  with assms show ?thesis by (auto simp: detach_task_v1_def detach_task_def intro!: abreast.intros)
next
  case (Detach_tasks tasks)
  have "abreast (map (\<lambda>task. Emplace (Plain task)) tasks @ [Notify_all, Unlock])
      (map (\<lambda>task. Emplace (Plain task)) tasks @ [Unlock, Notify_all])"
    by (intro abreast_pushes abreast.intros) simp
  with Detach_tasks assms show ?thesis
    by (auto simp: detach_tasks_v1_def detach_tasks_def intro!: abreast.intros)
qed (use assms in simp_all)

lemma aframes_Running:
  assumes "aframes (Running f m p1) y"
  obtains p2 where "y = Running f m p2" "abreast p1 p2"
  using assms by (cases y) auto

lemma aframes_Idle: "aframes Idle y \<Longrightarrow> y = Idle"
  by (cases y) simp_all

lemma lock_part_keep:
  assumes "data_lock s1 = data_lock s2
     \<or> (data_lock s2 = None
        \<and> (\<exists>c f m i. data_lock s1 = Some (Caller c) \<and> callers s1 c = Running f m [Unlock]
              \<and> callers s2 c = Running f m [i]))"
    and "data_lock s1' = data_lock s1" "data_lock s2' = data_lock s2"
    and "callers s1' = (callers s1)(c := x)" "callers s2' = (callers s2)(c := y)"
    and "\<And>f m. callers s1 c \<noteq> Running f m [Unlock]"
  shows "data_lock s1' = data_lock s2'
     \<or> (data_lock s2' = None
        \<and> (\<exists>c f m i. data_lock s1' = Some (Caller c) \<and> callers s1' c = Running f m [Unlock]
              \<and> callers s2' c = Running f m [i]))"
  using assms(1)
proof
  assume "data_lock s1 = data_lock s2"
  with assms show ?thesis by simp
next
  assume "data_lock s2 = None
     \<and> (\<exists>c f m i. data_lock s1 = Some (Caller c) \<and> callers s1 c = Running f m [Unlock]
              \<and> callers s2 c = Running f m [i])"
  then obtain c0 f m i where c0: "data_lock s2 = None" "data_lock s1 = Some (Caller c0)"
    "callers s1 c0 = Running f m [Unlock]" "callers s2 c0 = Running f m [i]" by blast
  with assms(6) have "c0 \<noteq> c" by auto
  with c0 assms(2-5) have "data_lock s2' = None" "data_lock s1' = Some (Caller c0)"
    "callers s1' c0 = Running f m [Unlock]" "callers s2' c0 = Running f m [i]" by simp_all
  then show ?thesis by blast
qed

lemma level_caller:
  assumes lv: "level s1 s2" and lk1: "lock_inv s1" and lk2: "lock_inv s2"
    and st1: "caller_step c k s1 = Some s1'" and st2: "caller_step c k s2 = Some s2'"
  shows "level s1' s2'"
proof -
  note eq = level_eqs [OF lv]
  note obs = level_observe [OF lv]
  note lk = level_lock [OF lv]
  note fr = level_frames [OF lv]
  from st1 show ?thesis
  proof (cases rule: caller_step_cases)
    case (Return f m)
    with fr [of c] abreast_Nil have c2: "callers s2 c = Running f m []"
      by (auto elim: aframes_Running)
    with st2 have s2': "s2' = s2\<lparr>callers := (callers s2)(c := Idle)\<rparr>"
      by (simp add: caller_step_def)
    show ?thesis
    proof (rule levelI)
      from Return s2' obs show "observe (s1'\<lparr>data_lock := None\<rparr>) = observe (s2'\<lparr>data_lock := None\<rparr>)"
        by (simp add: observe_eq_iff)
    next
      fix c' from Return s2' fr [of c'] show "aframes (callers s1' c') (callers s2' c')" by simp
    next
      from Return s2' show "data_lock s1' = data_lock s2'
         \<or> (data_lock s2' = None
            \<and> (\<exists>c f m i. data_lock s1' = Some (Caller c) \<and> callers s1' c = Running f m [Unlock]
                  \<and> callers s2' c = Running f m [i]))"
        by (intro lock_part_keep [OF lk, where c = c and x = Idle and y = Idle]) simp_all
    qed
  next
    case (Lock f m prog)
    with fr [of c] obtain p2 where "callers s2 c = Running f m p2" "abreast (Lock # prog) p2"
      by (auto elim: aframes_Running)
    with abreast_Lock obtain q where q: "callers s2 c = Running f m (Lock # q)" "abreast prog q"
      by blast
    with st2 have s2': "data_lock s2 = None"
      "s2' = s2\<lparr>data_lock := Some (Caller c), callers := (callers s2)(c := Running f m q)\<rparr>"
      by (simp_all add: caller_step_def split: if_splits)
    show ?thesis
    proof (rule levelI)
      from Lock s2' obs show "observe (s1'\<lparr>data_lock := None\<rparr>) = observe (s2'\<lparr>data_lock := None\<rparr>)"
        by (simp add: observe_eq_iff)
    next
      fix c' from Lock s2' q fr [of c'] show "aframes (callers s1' c') (callers s2' c')" by simp
    next
      from Lock s2' show "data_lock s1' = data_lock s2'
         \<or> (data_lock s2' = None
            \<and> (\<exists>c f m i. data_lock s1' = Some (Caller c) \<and> callers s1' c = Running f m [Unlock]
                  \<and> callers s2' c = Running f m [i]))"
        by simp
    qed
  next
    case (Unlock f m prog)
    with fr [of c] obtain p2 where "callers s2 c = Running f m p2" "abreast (Unlock # prog) p2"
      by (auto elim: aframes_Running)
    with abreast_Unlock obtain i where i: "prog = []" "callers s2 c = Running f m [i]"
      "notification i" by blast
    from st2 i obtain ts' where s2': "s2' = s2\<lparr>threads := ts',
        callers := (callers s2)(c := Running f m [])\<rparr>" "wakes (threads s2) ts'"
    proof (cases rule: caller_step_cases)
      case (Notify_one f' m' prog' s2a)
      with notify_one_wakes [OF Notify_one(2)] i that show ?thesis by auto
    next
      case (Notify_all f' m' prog')
      with notify_all_wakes [of s2] i that show ?thesis by auto
    qed (use i in auto)
    from lk1 Unlock have own: "data_lock s1 = Some (Caller c)"
      by (simp add: lock_inv_caller_iff)
    from lk2 i have "data_lock s2 \<noteq> Some (Caller c)"
      by (cases i) (simp_all add: lock_inv_caller_iff)
    with lk own have free: "data_lock s2 = None" by auto
    show ?thesis
    proof (rule levelI)
      from Unlock s2' obs show "observe (s1'\<lparr>data_lock := None\<rparr>) = observe (s2'\<lparr>data_lock := None\<rparr>)"
        by (simp add: observe_eq_iff view_wakes)
    next
      fix c' from Unlock s2' i fr [of c'] show "aframes (callers s1' c') (callers s2' c')"
        by (simp add: abreast.intros)
    next
      from Unlock s2' free show "data_lock s1' = data_lock s2'
         \<or> (data_lock s2' = None
            \<and> (\<exists>c f m i. data_lock s1' = Some (Caller c) \<and> callers s1' c = Running f m [Unlock]
                  \<and> callers s2' c = Running f m [i]))"
        by simp
    qed
  next
    case (Emplace f m prog j)
    with fr [of c] obtain p2 where "callers s2 c = Running f m p2" "abreast (Emplace j # prog) p2"
      by (auto elim: aframes_Running)
    with abreast_Emplace obtain q where q: "callers s2 c = Running f m (Emplace j # q)"
      "abreast prog q" by blast
    with st2 have s2': "s2' = s2\<lparr>jobs := jobs s2 @ [j], enqueued := enqueued s2 @ [j],
        callers := (callers s2)(c := Running f m q)\<rparr>"
      by (simp add: caller_step_def)
    show ?thesis
    proof (rule levelI)
      from Emplace s2' obs show "observe (s1'\<lparr>data_lock := None\<rparr>) = observe (s2'\<lparr>data_lock := None\<rparr>)"
        by (simp add: observe_eq_iff)
    next
      fix c' from Emplace s2' q fr [of c'] show "aframes (callers s1' c') (callers s2' c')" by simp
    next
      from Emplace s2' show "data_lock s1' = data_lock s2'
         \<or> (data_lock s2' = None
            \<and> (\<exists>c f m i. data_lock s1' = Some (Caller c) \<and> callers s1' c = Running f m [Unlock]
                  \<and> callers s2' c = Running f m [i]))"
        by (intro lock_part_keep [OF lk, where c = c and x = "Running f m prog"
              and y = "Running f m q"]) simp_all
    qed
  next
    case (For_more f m prog loop_body sem n stop)
    with fr [of c] abreast_For show ?thesis by (auto elim: aframes_Running)
  next
    case (For_exit f m prog loop_body sem n stop)
    with fr [of c] abreast_For show ?thesis by (auto elim: aframes_Running)
  next
    case (Notify_one f m prog s1a)
    with fr [of c] obtain p2 where "callers s2 c = Running f m p2"
      "abreast (Notify_one # prog) p2" by (auto elim: aframes_Running)
    with abreast_Notify [of Notify_one prog p2]
    have p: "prog = [Unlock]" "callers s2 c = Running f m [Unlock, Notify_one]" by simp_all
    with st2 have s2': "s2' = s2\<lparr>data_lock := None,
        callers := (callers s2)(c := Running f m [Notify_one])\<rparr>"
      by (simp add: caller_step_def)
    from notify_one_wakes [OF Notify_one(2)] obtain ts' where ts': "s1a = s1\<lparr>threads := ts'\<rparr>"
      "wakes (threads s1) ts'" by blast
    from lk1 Notify_one p have own: "data_lock s1 = Some (Caller c)"
      by (simp add: lock_inv_caller_iff)
    show ?thesis
    proof (rule levelI)
      from Notify_one ts' s2' obs
      show "observe (s1'\<lparr>data_lock := None\<rparr>) = observe (s2'\<lparr>data_lock := None\<rparr>)"
        by (simp add: observe_eq_iff view_wakes)
    next
      fix c' from Notify_one ts' s2' p fr [of c'] show "aframes (callers s1' c') (callers s2' c')"
        by (simp add: abreast.intros)
    next
      from Notify_one ts' s2' p own have "data_lock s2' = None" "data_lock s1' = Some (Caller c)"
        "callers s1' c = Running f m [Unlock]" "callers s2' c = Running f m [Notify_one]"
        by simp_all
      then show "data_lock s1' = data_lock s2'
         \<or> (data_lock s2' = None
            \<and> (\<exists>c f m i. data_lock s1' = Some (Caller c) \<and> callers s1' c = Running f m [Unlock]
                  \<and> callers s2' c = Running f m [i]))"
        by blast
    qed
  next
    case (Notify_all f m prog)
    with fr [of c] obtain p2 where "callers s2 c = Running f m p2"
      "abreast (Notify_all # prog) p2" by (auto elim: aframes_Running)
    with abreast_Notify [of Notify_all prog p2]
    have p: "prog = [Unlock]" "callers s2 c = Running f m [Unlock, Notify_all]" by simp_all
    with st2 have s2': "s2' = s2\<lparr>data_lock := None,
        callers := (callers s2)(c := Running f m [Notify_all])\<rparr>"
      by (simp add: caller_step_def)
    from notify_all_wakes [of s1] obtain ts' where ts': "cv_notify_all s1 = s1\<lparr>threads := ts'\<rparr>"
      "wakes (threads s1) ts'" by blast
    from lk1 Notify_all p have own: "data_lock s1 = Some (Caller c)"
      by (simp add: lock_inv_caller_iff)
    show ?thesis
    proof (rule levelI)
      from Notify_all ts' s2' obs
      show "observe (s1'\<lparr>data_lock := None\<rparr>) = observe (s2'\<lparr>data_lock := None\<rparr>)"
        by (simp add: observe_eq_iff view_wakes)
    next
      fix c' from Notify_all ts' s2' p fr [of c'] show "aframes (callers s1' c') (callers s2' c')"
        by (simp add: abreast.intros)
    next
      from Notify_all ts' s2' p own have "data_lock s2' = None" "data_lock s1' = Some (Caller c)"
        "callers s1' c = Running f m [Unlock]" "callers s2' c = Running f m [Notify_all]"
        by simp_all
      then show "data_lock s1' = data_lock s2'
         \<or> (data_lock s2' = None
            \<and> (\<exists>c f m i. data_lock s1' = Some (Caller c) \<and> callers s1' c = Running f m [Unlock]
                  \<and> callers s2' c = Running f m [i]))"
        by blast
    qed
  next
    case (Acquire f m prog sem)
    with fr [of c] abreast_Acquire show ?thesis by (auto elim: aframes_Running)
  qed
qed


lemma level_step:
  assumes lv: "level s1 s2" and lk1: "lock_inv s1" and lk2: "lock_inv s2"
    and st1: "step Rev1 e s1 = Some s1'" and st2: "step Rev2 e s2 = Some s2'"
  shows "level s1' s2'"
proof -
  note eq = level_eqs [OF lv]
  note obs = level_observe [OF lv]
  note lk = level_lock [OF lv]
  note fr = level_frames [OF lv]
  show ?thesis
  proof (cases e)
    case (Work w)
    with st1 st2 lv show ?thesis by (auto simp: step_Work intro: level_worker)
  next
    case (Spurious w)
    with st1 st2 have w: "s1' = s1\<lparr>threads := (threads s1)[w := W_woken]\<rparr>"
      "s2' = s2\<lparr>threads := (threads s2)[w := W_woken]\<rparr>"
      by (auto simp: step_Spurious spurious_wakeup_def split: if_splits)
    with obs lk fr show ?thesis
      by (intro levelI) (simp_all add: observe_eq_iff map_update)
  next
    case (Call c f)
    with st1 st2 have c: "call Rev1 c f s1 = Some s1'" "call Rev2 c f s2 = Some s2'"
      by (simp_all add: step_Call)
    from c(1) obtain p1 where p1: "callers s1 c = Idle" "program Rev1 f (next_sem s1) = Some p1"
      by (cases rule: call_cases) auto
    from c(2) obtain p2 where p2: "callers s2 c = Idle" "program Rev2 f (next_sem s2) = Some p2"
      by (cases rule: call_cases) auto
    from program_abreast [OF p1(2) p2(2)] have ab: "abreast p1 p2" "\<not> blocking f" by simp_all
    from c p1 p2 ab have s': "s1' = s1\<lparr>callers := (callers s1)(c := Running f None p1)\<rparr>"
      "s2' = s2\<lparr>callers := (callers s2)(c := Running f None p2)\<rparr>"
      by (simp_all add: call_def)
    show ?thesis
    proof (rule levelI)
      from s' obs show "observe (s1'\<lparr>data_lock := None\<rparr>) = observe (s2'\<lparr>data_lock := None\<rparr>)"
        by (simp add: observe_eq_iff)
    next
      fix c' from s' ab fr [of c'] show "aframes (callers s1' c') (callers s2' c')" by simp
    next
      from s' p1 show "data_lock s1' = data_lock s2'
         \<or> (data_lock s2' = None
            \<and> (\<exists>c f m i. data_lock s1' = Some (Caller c) \<and> callers s1' c = Running f m [Unlock]
                  \<and> callers s2' c = Running f m [i]))"
        by (intro lock_part_keep [OF lk, where c = c and x = "Running f None p1"
              and y = "Running f None p2"]) simp_all
    qed
  next
    case (Step c k)
    with st1 st2 lv lk1 lk2 show ?thesis by (auto simp: step_Step intro: level_caller)
  next
    case (Reset n)
    with st1 st2 have s': "s1' = snd (reset n s1)" "s2' = snd (reset n s2)"
      by (simp_all add: step_Reset split: if_splits)
    with obs eq lk fr show ?thesis
      by (intro levelI) (simp_all add: observe_eq_iff reset_frame)
  next
    case Destroy
    with st1 st2 have d: "ThreadPool_destructor s1 = Some s1'" "ThreadPool_destructor s2 = Some s2'"
      by (simp_all add: step_Destroy)
    from d(1) show ?thesis
    proof (cases rule: destructor_cases)
      case Stop
      with d(2) eq have "s2' = s2\<lparr>running := False, destructor := D_notify\<rparr>"
        by (simp add: ThreadPool_destructor_def)
      with Stop obs lk fr show ?thesis by (intro levelI) (simp_all add: observe_eq_iff)
    next
      case Notify
      with d(2) eq have s2': "s2' = (cv_notify_all s2)\<lparr>destructor := D_join 0\<rparr>"
        by (simp add: ThreadPool_destructor_def)
      from notify_all_wakes [of s1] obtain ts1 where t1: "cv_notify_all s1 = s1\<lparr>threads := ts1\<rparr>"
        "wakes (threads s1) ts1" by blast
      from notify_all_wakes [of s2] obtain ts2 where t2: "cv_notify_all s2 = s2\<lparr>threads := ts2\<rparr>"
        "wakes (threads s2) ts2" by blast
      from Notify s2' t1 t2 obs lk fr show ?thesis
        by (intro levelI) (simp_all add: observe_eq_iff view_wakes)
    next
      case (Join i)
      with d(2) eq have "s2' = s2\<lparr>destructor := D_join (Suc i)\<rparr>"
        by (simp add: ThreadPool_destructor_def split: if_splits)
      with Join obs lk fr show ?thesis by (intro levelI) (simp_all add: observe_eq_iff)
    next
      case (Finish i)
      with d(2) eq have "s2' = s2\<lparr>destructor := D_done\<rparr>"
        by (simp add: ThreadPool_destructor_def split: if_splits)
      with Finish obs lk fr show ?thesis by (intro levelI) (simp_all add: observe_eq_iff)
    qed
  qed
qed

lemma level_exec:
  assumes "level s1 s2" "lock_inv s1" "lock_inv s2"
    and "exec Rev1 es s1 = Some s1'" "exec Rev2 es s2 = Some s2'"
  shows "level s1' s2'"
  using assms
proof (induction es arbitrary: s1 s2)
  case Nil
  then show ?case by simp
next
  case (Cons e es)
  from Cons.prems(4) obtain t1 where t1: "step Rev1 e s1 = Some t1" "exec Rev1 es t1 = Some s1'"
    by (auto split: option.splits)
  from Cons.prems(5) obtain t2 where t2: "step Rev2 e s2 = Some t2" "exec Rev2 es t2 = Some s2'"
    by (auto split: option.splits)
  from level_step [OF Cons.prems(1-3) t1(1) t2(1)] have "level t1 t2" .
  moreover from lock_inv_step_event [OF t1(1) Cons.prems(2)] have "lock_inv t1" .
  moreover from lock_inv_step_event [OF t2(1) Cons.prems(3)] have "lock_inv t2" .
  ultimately show ?case using t1(2) t2(2) by (rule Cons.IH)
qed

lemma level_new: "level (ThreadPool n) (ThreadPool n)"
  by (simp add: level_def ThreadPool_def reset_frame new_pool_def)

lemma same_schedule:
  assumes "exec Rev1 es (ThreadPool n) = Some s1" "exec Rev2 es (ThreadPool n) = Some s2"
  shows "observe (s1\<lparr>data_lock := None\<rparr>) = observe (s2\<lparr>data_lock := None\<rparr>)"
    and "data_lock s1 = data_lock s2
      \<or> (data_lock s2 = None
         \<and> (\<exists>c f m. data_lock s1 = Some (Caller c) \<and> callers s1 c = Running f m [Unlock]))"
proof -
  from safe_new [of n] have lk: "lock_inv (ThreadPool n)" by (simp add: safe_def)
  from level_exec [OF level_new lk lk assms] have lv: "level s1 s2" .
  then show "observe (s1\<lparr>data_lock := None\<rparr>) = observe (s2\<lparr>data_lock := None\<rparr>)"
    by (rule level_observe)
  from level_lock [OF lv] show "data_lock s1 = data_lock s2
      \<or> (data_lock s2 = None
         \<and> (\<exists>c f m. data_lock s1 = Some (Caller c) \<and> callers s1 c = Running f m [Unlock]))"
    by blast
qed

lemma step_agree: "(\<And>c f. e \<noteq> Call c f) \<Longrightarrow> step Rev1 e s = step Rev2 e s"
  by (cases e) (auto simp: step_def worker_loop_v1_eq reset_v1_eq destructor_v1_eq)

lemma exec_agree: "(\<And>e c f. e \<in> set es \<Longrightarrow> e \<noteq> Call c f) \<Longrightarrow> exec Rev1 es s = exec Rev2 es s"
proof (induction es arbitrary: s)
  case Nil
  then show ?case by simp
next
  case (Cons e es)
  then have "step Rev1 e s = step Rev2 e s" by (intro step_agree) simp
  moreover from Cons have "exec Rev1 es t = exec Rev2 es t" for t by simp
  ultimately show ?case by (simp split: option.splits)
qed

text \<open>
  C10: the members that both revisions have behave alike. The constructors, \<open>reset\<close>,
  \<open>size\<close>, one step of \<open>worker_loop\<close> and one step of the destructor are the same
  functions of the state (same thread count, same exception), so every schedule without a
  call of a submitting function runs alike in both. \<open>detach_task\<close> and \<open>detach_tasks\<close>
  differ in one point, the order of the unlock and the notification. Run from call to
  return with no other thread in between they leave the same state, which is given; the
  pointer-and-count overload of \<open>ThreadPool.hpp\<close> agrees with the later \<open>detach_tasks\<close> on
  the first \<open>num_tasks\<close> elements. With other threads in between, a schedule of one
  revision need not be a schedule of the other (after the unlock of the later revision a
  worker can take the lock before the notification is sent). A schedule that does run in
  both leads to the same observation, but for the owner of the lock while a caller of the
  first revision stands between its notification and its unlock. And what can be observed
  is the same in general: for every schedule of one revision that calls only the shared
  functions there is a schedule of the other that leads to the same observation, that is
  the same queue, the same histories of pushes, pops, calls and returns, the same owner of
  the lock, the same number of threads, and every worker and every caller at the same
  place. (The answering schedule may wake a sleeping worker spuriously where the other
  revision notified it, which the C++ standard allows at any time.) In neither revision is
  a wake-up lost: while the pool runs, if a job is queued and a worker sleeps, then a
  worker is awake or a caller has its notification still to send.
\<close>

theorem revisions_agree:
  "ThreadPool_v1 n = ThreadPool n
   \<and> ThreadPool_default_v1 n = ThreadPool_default n
   \<and> reset_v1 n p = reset n p
   \<and> size_pool_v1 p = size_pool p
   \<and> worker_loop_v1 w p = worker_loop w p
   \<and> ThreadPool_destructor_v1 p = ThreadPool_destructor p
   \<and> ((\<forall>e \<in> set es. \<forall>c f. e \<noteq> Call c f) \<longrightarrow> exec Rev1 es p = exec Rev2 es p)
   \<and> exec Rev1 [Call c (Detach_task task), Step c k, Step c k, Step c k, Step c k, Step c k] p
       = exec Rev2 [Call c (Detach_task task), Step c k, Step c k, Step c k, Step c k, Step c k] p
   \<and> exec Rev1 (Call c (Detach_tasks tasks) # replicate (length tasks + 4) (Step c k)) p
       = exec Rev2 (Call c (Detach_tasks tasks) # replicate (length tasks + 4) (Step c k)) p
   \<and> (num_tasks \<le> length tasks \<longrightarrow>
        exec Rev1 (Call c (Detach_tasks_arr tasks num_tasks) # replicate (num_tasks + 4) (Step c k)) p
        = exec Rev2 (Call c (Detach_tasks (take num_tasks tasks))
            # replicate (num_tasks + 4) (Step c k)) p)
   \<and> (callers p c = Idle \<and> data_lock p = None \<and> cv_notify_one k p = Some t \<longrightarrow>
        exec Rev1 [Call c (Detach_task task), Step c k, Step c k, Step c k, Step c k, Step c k] p
        = Some (p\<lparr>jobs := jobs p @ [Plain task], enqueued := enqueued p @ [Plain task],
                  threads := threads t, data_lock := None, callers := (callers p)(c := Idle)\<rparr>))
   \<and> (callers p c = Idle \<and> data_lock p = None \<longrightarrow>
        exec Rev1 (Call c (Detach_tasks tasks) # replicate (length tasks + 4) (Step c k)) p
        = Some (p\<lparr>jobs := jobs p @ map Plain tasks, enqueued := enqueued p @ map Plain tasks,
                  threads := threads (cv_notify_all p), data_lock := None,
                  callers := (callers p)(c := Idle)\<rparr>))
   \<and> (exec Rev1 es (ThreadPool n) = Some s1 \<and> exec Rev2 es (ThreadPool n) = Some s2 \<longrightarrow>
        observe (s1\<lparr>data_lock := None\<rparr>) = observe (s2\<lparr>data_lock := None\<rparr>)
        \<and> (data_lock s1 = data_lock s2
           \<or> (data_lock s2 = None
              \<and> (\<exists>c' f m. data_lock s1 = Some (Caller c')
                    \<and> callers s1 c' = Running f m [Unlock]))))
   \<and> (list_all shared es \<and> exec Rev1 es (ThreadPool n) = Some s1 \<longrightarrow>
        (\<exists>es' s2'. list_all shared es' \<and> exec Rev2 es' (ThreadPool n) = Some s2'
           \<and> observe s2' = observe s1))
   \<and> (list_all shared es \<and> exec Rev2 es (ThreadPool n) = Some s2 \<longrightarrow>
        (\<exists>es' s1'. list_all shared es' \<and> exec Rev1 es' (ThreadPool n) = Some s1'
           \<and> observe s1' = observe s2))
   \<and> (exec rv es (ThreadPool n) = Some s \<and> running s \<and> jobs s \<noteq> []
        \<and> W_blocked \<in> set (threads s) \<longrightarrow>
        list_ex awake (threads s) \<or> (\<exists>c'. notifying (callers s c')))"
proof -
  have one: "exec Rev1 [Call c (Detach_task task), Step c k, Step c k, Step c k, Step c k, Step c k] p
       = exec Rev2 [Call c (Detach_task task), Step c k, Step c k, Step c k, Step c k, Step c k] p"
    by (simp only: detach_task_result)
  have many: "exec Rev1 (Call c (Detach_tasks ts) # replicate (length ts + 4) (Step c k)) p
       = exec Rev2 (Call c (Detach_tasks ts) # replicate (length ts + 4) (Step c k)) p" for ts
    using batch_result_v1 [of Rev1 "Detach_tasks ts" p ts c k]
      batch_result_v2 [of Rev2 "Detach_tasks ts" p ts c k]
    by (simp add: detach_tasks_v1_def detach_tasks_def del: exec.simps)
  have "exec Rev1 (Call c (Detach_tasks_arr tasks num_tasks) # replicate (num_tasks + 4) (Step c k)) p
        = exec Rev2 (Call c (Detach_tasks (take num_tasks tasks))
            # replicate (num_tasks + 4) (Step c k)) p" if "num_tasks \<le> length tasks"
    using batch_result_v1 [of Rev1 "Detach_tasks_arr tasks num_tasks" p "take num_tasks tasks" c k]
      batch_result_v2 [of Rev2 "Detach_tasks (take num_tasks tasks)" p "take num_tasks tasks" c k] that
    by (simp add: detach_tasks_arr_v1_def detach_tasks_def min_absorb2 del: exec.simps)
  then have arr: "num_tasks \<le> length tasks \<longrightarrow>
        exec Rev1 (Call c (Detach_tasks_arr tasks num_tasks) # replicate (num_tasks + 4) (Step c k)) p
        = exec Rev2 (Call c (Detach_tasks (take num_tasks tasks))
            # replicate (num_tasks + 4) (Step c k)) p"
    by blast
  have sched: "(\<forall>e \<in> set es. \<forall>c f. e \<noteq> Call c f) \<longrightarrow> exec Rev1 es p = exec Rev2 es p"
    using exec_agree [of es p] by blast
  have res1: "callers p c = Idle \<and> data_lock p = None \<and> cv_notify_one k p = Some t \<longrightarrow>
        exec Rev1 [Call c (Detach_task task), Step c k, Step c k, Step c k, Step c k, Step c k] p
        = Some (p\<lparr>jobs := jobs p @ [Plain task], enqueued := enqueued p @ [Plain task],
                  threads := threads t, data_lock := None, callers := (callers p)(c := Idle)\<rparr>)"
    by (simp add: detach_task_result del: exec.simps)
  have resn: "callers p c = Idle \<and> data_lock p = None \<longrightarrow>
        exec Rev1 (Call c (Detach_tasks tasks) # replicate (length tasks + 4) (Step c k)) p
        = Some (p\<lparr>jobs := jobs p @ map Plain tasks, enqueued := enqueued p @ map Plain tasks,
                  threads := threads (cv_notify_all p), data_lock := None,
                  callers := (callers p)(c := Idle)\<rparr>)"
    using batch_result_v1 [of Rev1 "Detach_tasks tasks" p tasks c k]
    by (simp add: detach_tasks_v1_def del: exec.simps)
  have same: "exec Rev1 es (ThreadPool n) = Some s1 \<and> exec Rev2 es (ThreadPool n) = Some s2 \<longrightarrow>
        observe (s1\<lparr>data_lock := None\<rparr>) = observe (s2\<lparr>data_lock := None\<rparr>)
        \<and> (data_lock s1 = data_lock s2
           \<or> (data_lock s2 = None
              \<and> (\<exists>c' f m. data_lock s1 = Some (Caller c')
                    \<and> callers s1 c' = Running f m [Unlock])))"
    using same_schedule [of es n s1 s2] by blast
  have sim12: "list_all shared es \<and> exec Rev1 es (ThreadPool n) = Some s1 \<longrightarrow>
        (\<exists>es' s2'. list_all shared es' \<and> exec Rev2 es' (ThreadPool n) = Some s2'
           \<and> observe s2' = observe s1)"
    using revisions_simulate(1) [of es n s1] by blast
  have sim21: "list_all shared es \<and> exec Rev2 es (ThreadPool n) = Some s2 \<longrightarrow>
        (\<exists>es' s1'. list_all shared es' \<and> exec Rev1 es' (ThreadPool n) = Some s1'
           \<and> observe s1' = observe s2)"
    using revisions_simulate(2) [of es n s2] by blast
  have wake: "exec rv es (ThreadPool n) = Some s \<and> running s \<and> jobs s \<noteq> []
        \<and> W_blocked \<in> set (threads s) \<longrightarrow>
        list_ex awake (threads s) \<or> (\<exists>c'. notifying (callers s c'))"
    using deliver_inv_exec [of rv es n s] deliver_inv_wake [of s] by blast
  have eqs: "ThreadPool_v1 n = ThreadPool n" "ThreadPool_default_v1 n = ThreadPool_default n"
    "reset_v1 n p = reset n p" "size_pool_v1 p = size_pool p"
    "worker_loop_v1 w p = worker_loop w p" "ThreadPool_destructor_v1 p = ThreadPool_destructor p"
    by (simp_all add: ThreadPool_v1_def ThreadPool_def ThreadPool_default_v1_def
        ThreadPool_default_def reset_v1_eq size_pool_v1_def size_pool_def worker_loop_v1_eq
        destructor_v1_eq)
  from eqs sched one many [of tasks] arr res1 resn same sim12 sim21 wake show ?thesis
    by (intro conjI) assumption+
qed


theorem revisions_agree_witness:
  "(\<exists>s2. exec Rev2 (replicate 4 (Work 0) @ [Work 1, Call 0 (Detach_task 7)]
            @ replicate 3 (Step 0 0) @ replicate 4 (Work 1) @ replicate 2 (Step 0 0))
          (ThreadPool 2) = Some s2
        \<and> dequeued s2 = [Plain 7] \<and> threads s2 = [W_woken, W_unlock (Plain 7)]
        \<and> (\<exists>es' s1. list_all shared es' \<and> exec Rev1 es' (ThreadPool 2) = Some s1
              \<and> observe s1 = observe s2))
   \<and> exec Rev1 (replicate 4 (Work 0) @ [Work 1, Call 0 (Detach_task 7)]
            @ replicate 3 (Step 0 0) @ replicate 4 (Work 1) @ replicate 2 (Step 0 0))
          (ThreadPool 2) = None
   \<and> (\<exists>s1. exec Rev1 (replicate 4 (Work 0) @ [Call 0 (Detach_task 7)] @ replicate 3 (Step 0 0))
          (ThreadPool 1) = Some s1
        \<and> threads s1 = [W_woken] \<and> data_lock s1 = Some (Caller 0)
        \<and> (\<exists>es' s2. list_all shared es' \<and> exec Rev2 es' (ThreadPool 1) = Some s2
              \<and> observe s2 = observe s1))
   \<and> (\<exists>s. exec Rev1 (replicate 4 (Work 0) @ [Call 0 (Detach_task 7)] @ replicate 2 (Step 0 0))
          (ThreadPool 1) = Some s
        \<and> jobs s = [Plain 7] \<and> threads s = [W_blocked]
        \<and> (list_ex awake (threads s) \<or> (\<exists>c'. notifying (callers s c'))))
   \<and> (\<exists>s. exec Rev1 (Call 0 (Detach_tasks [1, 2]) # replicate (length [1, 2 :: nat] + 4) (Step 0 0))
          (ThreadPool 1) = Some s
        \<and> exec Rev2 (Call 0 (Detach_tasks [1, 2]) # replicate (length [1, 2 :: nat] + 4) (Step 0 0))
          (ThreadPool 1) = Some s
        \<and> jobs s = [Plain 1, Plain 2])
   \<and> exec Rev1 (Call 0 (Detach_tasks_arr [1, 2, 3] 2) # replicate (2 + 4) (Step 0 0)) (ThreadPool 1)
     = exec Rev2 (Call 0 (Detach_tasks (take 2 [1, 2, 3])) # replicate (2 + 4) (Step 0 0))
         (ThreadPool 1)
   \<and> exec Rev1 [Work 0, Destroy, Destroy, Work 0] (ThreadPool 1)
     = exec Rev2 [Work 0, Destroy, Destroy, Work 0] (ThreadPool 1)
   \<and> (\<exists>s1 s2. exec Rev1 (replicate 4 (Work 0) @ [Call 0 (Detach_task 7)]
             @ replicate 5 (Step 0 0) @ replicate 5 (Work 0)) (ThreadPool 1) = Some s1
        \<and> exec Rev2 (replicate 4 (Work 0) @ [Call 0 (Detach_task 7)]
             @ replicate 5 (Step 0 0) @ replicate 5 (Work 0)) (ThreadPool 1) = Some s2
        \<and> dequeued s1 = [Plain 7] \<and> observe s1 = observe s2)
   \<and> (\<exists>s1 s2. exec Rev1 (replicate 4 (Work 0) @ [Call 0 (Detach_task 7)]
             @ replicate 3 (Step 0 0)) (ThreadPool 1) = Some s1
        \<and> exec Rev2 (replicate 4 (Work 0) @ [Call 0 (Detach_task 7)]
             @ replicate 3 (Step 0 0)) (ThreadPool 1) = Some s2
        \<and> data_lock s1 = Some (Caller 0) \<and> data_lock s2 = None
        \<and> observe (s1\<lparr>data_lock := None\<rparr>) = observe (s2\<lparr>data_lock := None\<rparr>))"
proof -
  let ?es = "replicate 4 (Work 0) @ [Work 1, Call 0 (Detach_task 7)]
      @ replicate 3 (Step 0 0) @ replicate 4 (Work 1) @ replicate 2 (Step 0 0)"
  have sh: "list_all shared ?es" by (auto simp: list_all_iff)
  have "case exec Rev2 ?es (ThreadPool 2) of
          None \<Rightarrow> False
        | Some s2 \<Rightarrow> dequeued s2 = [Plain 7] \<and> threads s2 = [W_woken, W_unlock (Plain 7)]"
    by code_simp
  then obtain s2 where s2: "exec Rev2 ?es (ThreadPool 2) = Some s2" "dequeued s2 = [Plain 7]"
      "threads s2 = [W_woken, W_unlock (Plain 7)]"
    by (auto split: option.splits)
  from revisions_agree [where es = ?es and n = 2 and ?s2.0 = s2, THEN conjunct2, THEN conjunct2, THEN conjunct2, THEN conjunct2, THEN conjunct2, THEN conjunct2, THEN conjunct2, THEN conjunct2, THEN conjunct2, THEN conjunct2, THEN conjunct2, THEN conjunct2, THEN conjunct2, THEN conjunct2, THEN conjunct1] sh s2(1)
  have "\<exists>es' s1. list_all shared es' \<and> exec Rev1 es' (ThreadPool 2) = Some s1
      \<and> observe s1 = observe s2"
    by (simp del: exec.simps)
  with s2 have 1: "\<exists>s2. exec Rev2 ?es (ThreadPool 2) = Some s2
      \<and> dequeued s2 = [Plain 7] \<and> threads s2 = [W_woken, W_unlock (Plain 7)]
      \<and> (\<exists>es' s1. list_all shared es' \<and> exec Rev1 es' (ThreadPool 2) = Some s1
            \<and> observe s1 = observe s2)"
    by blast
  have 2: "exec Rev1 ?es (ThreadPool 2) = None" by code_simp
  let ?fs = "replicate 4 (Work 0) @ [Call 0 (Detach_task 7)] @ replicate 3 (Step 0 0)"
  have shf: "list_all shared ?fs" by (auto simp: list_all_iff)
  have "case exec Rev1 ?fs (ThreadPool 1) of
          None \<Rightarrow> False
        | Some s1 \<Rightarrow> threads s1 = [W_woken] \<and> data_lock s1 = Some (Caller 0)"
    by code_simp
  then obtain s1 where s1: "exec Rev1 ?fs (ThreadPool 1) = Some s1" "threads s1 = [W_woken]"
      "data_lock s1 = Some (Caller 0)"
    by (auto split: option.splits)
  from revisions_agree [where es = ?fs and n = 1 and ?s1.0 = s1, THEN conjunct2, THEN conjunct2, THEN conjunct2, THEN conjunct2, THEN conjunct2, THEN conjunct2, THEN conjunct2, THEN conjunct2, THEN conjunct2, THEN conjunct2, THEN conjunct2, THEN conjunct2, THEN conjunct2, THEN conjunct1] shf s1(1)
  have "\<exists>es' s2. list_all shared es' \<and> exec Rev2 es' (ThreadPool 1) = Some s2
      \<and> observe s2 = observe s1"
    by (simp del: exec.simps)
  with s1 have 3: "\<exists>s1. exec Rev1 ?fs (ThreadPool 1) = Some s1
      \<and> threads s1 = [W_woken] \<and> data_lock s1 = Some (Caller 0)
      \<and> (\<exists>es' s2. list_all shared es' \<and> exec Rev2 es' (ThreadPool 1) = Some s2
            \<and> observe s2 = observe s1)"
    by blast
  let ?gs = "replicate 4 (Work 0) @ [Call 0 (Detach_task 7)] @ replicate 2 (Step 0 0)"
  have "case exec Rev1 ?gs (ThreadPool 1) of
          None \<Rightarrow> False
        | Some s \<Rightarrow> running s \<and> jobs s = [Plain 7] \<and> threads s = [W_blocked]"
    by code_simp
  then obtain s where s: "exec Rev1 ?gs (ThreadPool 1) = Some s" "running s"
      "jobs s = [Plain 7]" "threads s = [W_blocked]"
    by (auto split: option.splits)
  from revisions_agree [where rv = Rev1 and es = ?gs and n = 1 and s = s, THEN conjunct2, THEN conjunct2, THEN conjunct2, THEN conjunct2, THEN conjunct2, THEN conjunct2, THEN conjunct2, THEN conjunct2, THEN conjunct2, THEN conjunct2, THEN conjunct2, THEN conjunct2, THEN conjunct2, THEN conjunct2, THEN conjunct2] s
  have "list_ex awake (threads s) \<or> (\<exists>c'. notifying (callers s c'))"
    by (simp del: exec.simps)
  with s have 4: "\<exists>s. exec Rev1 ?gs (ThreadPool 1) = Some s
      \<and> jobs s = [Plain 7] \<and> threads s = [W_blocked]
      \<and> (list_ex awake (threads s) \<or> (\<exists>c'. notifying (callers s c')))"
    by blast
  have idle: "callers (ThreadPool 1) 0 = Idle" "data_lock (ThreadPool 1) = None"
    "jobs (ThreadPool 1) = []"
    by (simp_all add: ThreadPool_def reset_frame new_pool_def)
  let ?t = "(ThreadPool 1)\<lparr>jobs := jobs (ThreadPool 1) @ map Plain [1, 2],
      enqueued := enqueued (ThreadPool 1) @ map Plain [1, 2],
      threads := threads (cv_notify_all (ThreadPool 1)), data_lock := None,
      callers := (callers (ThreadPool 1))(0 := Idle)\<rparr>"
  from revisions_agree [where p = "ThreadPool 1" and c = 0 and tasks = "[1, 2]" and k = 0,
      THEN conjunct2, THEN conjunct2, THEN conjunct2, THEN conjunct2, THEN conjunct2, THEN conjunct2, THEN conjunct2, THEN conjunct2, THEN conjunct2, THEN conjunct2, THEN conjunct2, THEN conjunct1] idle
  have a: "exec Rev1 (Call 0 (Detach_tasks [1, 2]) # replicate (length [1, 2 :: nat] + 4) (Step 0 0))
      (ThreadPool 1) = Some ?t"
    by (simp del: exec.simps)
  with revisions_agree [where p = "ThreadPool 1" and c = 0 and tasks = "[1, 2]" and k = 0,
      THEN conjunct2, THEN conjunct2, THEN conjunct2, THEN conjunct2, THEN conjunct2, THEN conjunct2, THEN conjunct2, THEN conjunct2, THEN conjunct1]
  have b: "exec Rev2 (Call 0 (Detach_tasks [1, 2]) # replicate (length [1, 2 :: nat] + 4) (Step 0 0))
      (ThreadPool 1) = Some ?t"
    by (simp del: exec.simps)
  from idle have "jobs ?t = [Plain 1, Plain 2]" by simp
  with a b have 5: "\<exists>s. exec Rev1 (Call 0 (Detach_tasks [1, 2])
        # replicate (length [1, 2 :: nat] + 4) (Step 0 0)) (ThreadPool 1) = Some s
      \<and> exec Rev2 (Call 0 (Detach_tasks [1, 2]) # replicate (length [1, 2 :: nat] + 4) (Step 0 0))
        (ThreadPool 1) = Some s
      \<and> jobs s = [Plain 1, Plain 2]"
    by blast
  from revisions_agree [where p = "ThreadPool 1" and num_tasks = 2 and tasks = "[1, 2, 3]"
      and c = 0 and k = 0, THEN conjunct2, THEN conjunct2, THEN conjunct2, THEN conjunct2, THEN conjunct2, THEN conjunct2, THEN conjunct2, THEN conjunct2, THEN conjunct2, THEN conjunct1]
  have 6: "exec Rev1 (Call 0 (Detach_tasks_arr [1, 2, 3] 2) # replicate (2 + 4) (Step 0 0))
        (ThreadPool 1)
      = exec Rev2 (Call 0 (Detach_tasks (take 2 [1, 2, 3])) # replicate (2 + 4) (Step 0 0))
        (ThreadPool 1)"
    by (simp del: exec.simps)
  from revisions_agree [where es = "[Work 0, Destroy, Destroy, Work 0]" and p = "ThreadPool 1",
      THEN conjunct2, THEN conjunct2, THEN conjunct2, THEN conjunct2, THEN conjunct2, THEN conjunct2, THEN conjunct1]
  have 7: "exec Rev1 [Work 0, Destroy, Destroy, Work 0] (ThreadPool 1)
      = exec Rev2 [Work 0, Destroy, Destroy, Work 0] (ThreadPool 1)"
    by (simp del: exec.simps)
  let ?hs = "replicate 4 (Work 0) @ [Call 0 (Detach_task 7)] @ replicate 5 (Step 0 0)
      @ replicate 5 (Work 0)"
  have "case exec Rev1 ?hs (ThreadPool 1) of
          None \<Rightarrow> False
        | Some s1 \<Rightarrow> dequeued s1 = [Plain 7] \<and> data_lock s1 = None"
    by code_simp
  then obtain h1 where h1: "exec Rev1 ?hs (ThreadPool 1) = Some h1" "dequeued h1 = [Plain 7]"
      "data_lock h1 = None"
    by (auto split: option.splits)
  have "case exec Rev2 ?hs (ThreadPool 1) of None \<Rightarrow> False | Some s2 \<Rightarrow> True"
    by code_simp
  then obtain h2 where h2: "exec Rev2 ?hs (ThreadPool 1) = Some h2"
    by (auto split: option.splits)
  from revisions_agree [where es = ?hs and n = 1 and ?s1.0 = h1 and ?s2.0 = h2, THEN conjunct2, THEN conjunct2, THEN conjunct2, THEN conjunct2, THEN conjunct2, THEN conjunct2, THEN conjunct2, THEN conjunct2, THEN conjunct2, THEN conjunct2, THEN conjunct2, THEN conjunct2, THEN conjunct1]
    h1 h2
  have "observe h1 = observe h2" by (auto simp: observe_eq_iff simp del: exec.simps)
  with h1 h2 have 8: "\<exists>s1 s2. exec Rev1 ?hs (ThreadPool 1) = Some s1
      \<and> exec Rev2 ?hs (ThreadPool 1) = Some s2
      \<and> dequeued s1 = [Plain 7] \<and> observe s1 = observe s2"
    by blast
  have "case exec Rev2 ?fs (ThreadPool 1) of
          None \<Rightarrow> False
        | Some s2 \<Rightarrow> data_lock s2 = None"
    by code_simp
  then obtain f2 where f2: "exec Rev2 ?fs (ThreadPool 1) = Some f2" "data_lock f2 = None"
    by (auto split: option.splits)
  from revisions_agree [where es = ?fs and n = 1 and ?s1.0 = s1 and ?s2.0 = f2, THEN conjunct2, THEN conjunct2, THEN conjunct2, THEN conjunct2, THEN conjunct2, THEN conjunct2, THEN conjunct2, THEN conjunct2, THEN conjunct2, THEN conjunct2, THEN conjunct2, THEN conjunct2, THEN conjunct1]
    s1 f2
  have "observe (s1\<lparr>data_lock := None\<rparr>) = observe (f2\<lparr>data_lock := None\<rparr>)"
    by (simp del: exec.simps)
  with s1 f2 have 9: "\<exists>s1 s2. exec Rev1 ?fs (ThreadPool 1) = Some s1
      \<and> exec Rev2 ?fs (ThreadPool 1) = Some s2
      \<and> data_lock s1 = Some (Caller 0) \<and> data_lock s2 = None
      \<and> observe (s1\<lparr>data_lock := None\<rparr>) = observe (s2\<lparr>data_lock := None\<rparr>)"
    by blast
  from 1 2 3 4 5 6 7 8 9 show ?thesis by (intro conjI) assumption+
qed
section \<open>Destruction\<close>

lemma wakes_done: "wakes ts ts' \<Longrightarrow> w < length ts \<Longrightarrow> ts ! w = W_done \<Longrightarrow> ts' ! w = W_done"
  using wakes_nth [of ts ts' w] by auto

lemma join_inv_wakes:
  assumes "join_inv s" "wakes (threads s) ts'"
  shows "join_inv (s\<lparr>threads := ts'\<rparr>)"
  using assms wakes_length [OF assms(2)] by (auto simp: join_inv_def wakes_done)

lemma join_inv_worker:
  assumes "worker_loop w s = Some s'" and inv: "join_inv s"
  shows "join_inv s'"
  using assms(1)
  by (cases rule: worker_loop_cases) (use inv in \<open>auto simp: join_inv_def nth_list_update\<close>)

lemma join_inv_step_event:
  assumes "step rv e s = Some s'" and inv: "join_inv s"
  shows "join_inv s'"
  using assms(1)
proof (cases rule: step_cases)
  case (Work w)
  with inv show ?thesis by (auto intro: join_inv_worker)
next
  case (Spurious w)
  with spurious_wakes [of w s s'] join_inv_wakes [OF inv] show ?thesis by auto
next
  case (Call c f)
  from Call(2) show ?thesis
    by (cases rule: call_cases) (use inv in \<open>simp_all add: join_inv_def\<close>)
next
  case (Step c k)
  from Step(2) show ?thesis
  proof (cases rule: caller_step_cases)
    case (Notify_one f m prog s1)
    from notify_one_wakes [OF Notify_one(2)] obtain ts'
      where "s1 = s\<lparr>threads := ts'\<rparr>" "wakes (threads s) ts'" by blast
    with Notify_one join_inv_wakes [OF inv, of ts'] show ?thesis by (simp add: join_inv_def)
  next
    case (Notify_all f m prog)
    from notify_all_wakes [of s] obtain ts'
      where "cv_notify_all s = s\<lparr>threads := ts'\<rparr>" "wakes (threads s) ts'" by blast
    with Notify_all join_inv_wakes [OF inv, of ts'] show ?thesis by (simp add: join_inv_def)
  qed (use inv in \<open>simp_all add: join_inv_def\<close>)
next
  case (Reset n)
  with inv show ?thesis by (simp add: join_inv_def reset_frame)
next
  case Destroy
  from Destroy(2) show ?thesis
  proof (cases rule: destructor_cases)
    case Notify
    from notify_all_wakes [of s] obtain ts'
      where "cv_notify_all s = s\<lparr>threads := ts'\<rparr>" "wakes (threads s) ts'" by blast
    with Notify join_inv_wakes [OF inv, of ts'] show ?thesis by (simp add: join_inv_def)
  next
    case (Join i)
    with inv show ?thesis by (auto simp: join_inv_def less_Suc_eq)
  next
    case (Finish i)
    with inv show ?thesis by (auto simp: join_inv_def)
  qed (use inv in \<open>simp_all add: join_inv_def\<close>)
qed

lemma join_inv_exec: "exec rv es (ThreadPool n) = Some s \<Longrightarrow> join_inv s"
proof -
  have "join_inv (ThreadPool n)"
    by (simp add: join_inv_def ThreadPool_def reset_frame new_pool_def)
  then show "exec rv es (ThreadPool n) = Some s \<Longrightarrow> join_inv s"
    using exec_invariant [where P = join_inv] join_inv_step_event by blast
qed

text \<open>
  What the destructor does guarantee: it sets \<open>running\<close> to false first; it is past the
  joins only when every worker has returned; a worker that reads \<open>running == false\<close> (at
  the loop head or after the wait) returns without touching the queue; and once the
  destructor is done no job is popped or run any more, whatever is left in the queue.
\<close>

lemma destructor_joins_all:
  assumes "exec rv es (ThreadPool n) = Some s" "destructor s = D_done" "w < length (threads s)"
  shows "threads s ! w = W_done" "\<not> running s"
  using join_inv_exec [OF assms(1)] assms(2,3) by (simp_all add: join_inv_def)

lemma stopped_worker_returns:
  assumes "w < length (threads s)" "\<not> running s"
    "threads s ! w = W_while \<or> threads s ! w = W_check"
  shows "\<exists>t. step rv (Work w) s = Some t \<and> threads t ! w = W_done \<and> jobs t = jobs s
    \<and> dequeued t = dequeued s \<and> finished t = finished s"
  using assms by (auto simp: step_Work worker_loop_def)

lemma all_done_step:
  assumes "step rv e s = Some t" "destructor s = D_done" "\<forall>w < length (threads s). threads s ! w = W_done"
  shows "destructor t = D_done \<and> (\<forall>w < length (threads t). threads t ! w = W_done)
    \<and> dequeued t = dequeued s \<and> finished t = finished s"
  using assms(1)
proof (cases rule: step_cases)
  case (Work w)
  from Work(2) assms(3) show ?thesis by (cases rule: worker_loop_cases) auto
next
  case (Spurious w)
  with assms show ?thesis by (auto simp: spurious_wakeup_def split: if_splits)
next
  case (Call c f)
  from Call(2) show ?thesis by (cases rule: call_cases) (use assms in simp_all)
next
  case (Step c k)
  from Step(2) show ?thesis
  proof (cases rule: caller_step_cases)
    case (Notify_one f m prog s1)
    from notify_one_wakes [OF Notify_one(2)] obtain ts'
      where "s1 = s\<lparr>threads := ts'\<rparr>" "wakes (threads s) ts'" by blast
    with Notify_one assms wakes_length [of "threads s" ts'] show ?thesis
      by (auto simp: wakes_done)
  next
    case (Notify_all f m prog)
    from notify_all_wakes [of s] obtain ts'
      where "cv_notify_all s = s\<lparr>threads := ts'\<rparr>" "wakes (threads s) ts'" by blast
    with Notify_all assms wakes_length [of "threads s" ts'] show ?thesis
      by (auto simp: wakes_done)
  qed (use assms in simp_all)
next
  case (Reset n)
  with assms show ?thesis by simp
next
  case Destroy
  from Destroy(2) assms show ?thesis by (cases rule: destructor_cases) simp_all
qed

lemma leftover_jobs_never_run:
  assumes "exec rv es (ThreadPool n) = Some s" "destructor s = D_done" "exec rv es' s = Some t"
  shows "dequeued t = dequeued s \<and> finished t = finished s"
proof -
  let ?P = "\<lambda>u. destructor u = D_done \<and> (\<forall>w < length (threads u). threads u ! w = W_done)
    \<and> dequeued u = dequeued s \<and> finished u = finished s"
  from join_inv_exec [OF assms(1)] assms(2) have "?P s" by (simp add: join_inv_def)
  moreover have "?P u'" if "?P u" "step rv e u = Some u'" for e u u'
    using all_done_step [OF that(2)] that(1) by simp
  ultimately have "?P t" using exec_invariant [where P = ?P, OF assms(3)] by blast
  then show ?thesis by simp
qed

text \<open>
  C7 (the code departs from the claim): a pool with one worker and an empty queue. The
  worker evaluates the predicate of \<open>cv.wait\<close> (false: the queue is empty and \<open>running\<close> is
  true); the destructor then sets \<open>running = false\<close> and calls \<open>cv.notify_all()\<close>, which
  finds no thread waiting; the worker then blocks in \<open>wait(lock)\<close>. In the state reached
  \<open>running\<close> is false, the worker is blocked and was not woken, and neither the destructor
  (at \<open>join\<close>) nor the worker can take a step, in either revision.
\<close>

theorem destructor_lost_wakeup:
  "\<exists>s. exec rv [Work 0, Work 0, Work 0, Destroy, Destroy, Work 0] (ThreadPool 1) = Some s
       \<and> running s = False \<and> threads s = [W_blocked] \<and> destructor s = D_join 0
       \<and> jobs s = [] \<and> data_lock s = None
       \<and> step rv Destroy s = None \<and> step rv (Work 0) s = None"
proof -
  have "case exec rv [Work 0, Work 0, Work 0, Destroy, Destroy, Work 0] (ThreadPool 1) of
          None \<Rightarrow> False
        | Some s \<Rightarrow> running s = False \<and> threads s = [W_blocked] \<and> destructor s = D_join 0
            \<and> jobs s = [] \<and> data_lock s = None"
    by (cases rv; hypsubst; code_simp)
  then obtain s where s: "exec rv [Work 0, Work 0, Work 0, Destroy, Destroy, Work 0] (ThreadPool 1) = Some s"
    "running s = False" "threads s = [W_blocked]" "destructor s = D_join 0"
    "jobs s = []" "data_lock s = None"
    by (auto split: option.splits)
  from s(3) have "step rv (Work 0) s = None"
    by (simp add: step_Work worker_loop_def)
  moreover from s(3,4) have "step rv Destroy s = None"
    by (cases rv) (simp_all add: step_def destructor_v1_eq ThreadPool_destructor_def)
  ultimately show ?thesis using s by blast
qed

text \<open>
  A job that is still in the queue when \<open>running\<close> becomes false can be run all the same:
  a worker that has passed \<open>if (!running.load())\<close> pops it and runs it.
\<close>

lemma job_run_after_stop:
  "\<exists>s. exec rv ([Call 0 (Detach_task 7)] @ replicate 5 (Step 0 0) @ replicate 4 (Work 0)
          @ [Destroy] @ replicate 3 (Work 0)) (ThreadPool 1) = Some s
       \<and> running s = False \<and> finished s = [Plain 7] \<and> jobs s = []"
proof -
  have "case exec rv ([Call 0 (Detach_task 7)] @ replicate 5 (Step 0 0) @ replicate 4 (Work 0)
          @ [Destroy] @ replicate 3 (Work 0)) (ThreadPool 1) of
          None \<Rightarrow> False
        | Some s \<Rightarrow> running s = False \<and> finished s = [Plain 7] \<and> jobs s = []"
    by (cases rv; hypsubst; code_simp)
  then show ?thesis by (auto split: option.splits)
qed

section \<open>\<open>run_loop\<close>\<close>

text \<open>
  C4 (the code departs from the claim): \<open>run_loop(256, 5, body)\<close> with a body taking an
  unsigned 8-bit index. The range is empty (\<open>start > end\<close>), yet the first loop starts at
  \<open>(unsigned char) 256 = 0\<close> and pushes five jobs, for the indices 0 to 4; the second loop
  runs from 256 and acquires nothing, so the call returns at once, with the five jobs
  queued and none of them run.
\<close>

theorem run_loop_narrow_index:
  "\<exists>s. exec Rev2 (Call 0 (Run_loop 256 5 (Unsigned_arg 8)) # replicate 10 (Step 0 0))
          (ThreadPool 4) = Some s
       \<and> jobs s = [Loop_wrapper (Some 0) 0, Loop_wrapper (Some 1) 0, Loop_wrapper (Some 2) 0,
                    Loop_wrapper (Some 3) 0, Loop_wrapper (Some 4) 0]
       \<and> callers s 0 = Idle \<and> finished s = []"
proof -
  have "case exec Rev2 (Call 0 (Run_loop 256 5 (Unsigned_arg 8)) # replicate 10 (Step 0 0))
          (ThreadPool 4) of
          None \<Rightarrow> False
        | Some s \<Rightarrow>
            jobs s = [Loop_wrapper (Some 0) 0, Loop_wrapper (Some 1) 0, Loop_wrapper (Some 2) 0,
                      Loop_wrapper (Some 3) 0, Loop_wrapper (Some 4) 0]
            \<and> callers s 0 = Idle \<and> finished s = []"
    by code_simp
  then show ?thesis by (auto split: option.splits)
qed


lemma for_emplace_exec:
  assumes "callers s c = Running f m (For_emplace body sem i stop # rest)"
    and "stop < 2 ^ induction_bits body"
  shows "exec rv (replicate (Suc (stop - i)) (Step c k) @ es) s
    = exec rv es (s\<lparr>jobs := jobs s @ map (\<lambda>n. Loop_wrapper (loop_arg body n) sem) [i..<stop],
                    enqueued := enqueued s @ map (\<lambda>n. Loop_wrapper (loop_arg body n) sem) [i..<stop],
                    callers := (callers s)(c := Running f m rest)\<rparr>)"
  using assms
proof (induction "stop - i" arbitrary: i s)
  case 0
  then have ge: "\<not> i < stop" by simp
  let ?t = "s\<lparr>callers := (callers s)(c := Running f m rest)\<rparr>"
  from 0 ge have st: "step rv (Step c k) s = Some ?t"
    by (simp add: step_Step caller_step_def)
  from ge have "s\<lparr>jobs := jobs s @ map (\<lambda>n. Loop_wrapper (loop_arg body n) sem) [i..<stop],
      enqueued := enqueued s @ map (\<lambda>n. Loop_wrapper (loop_arg body n) sem) [i..<stop],
      callers := (callers s)(c := Running f m rest)\<rparr> = ?t" by simp
  moreover from 0 have "replicate (Suc (stop - i)) (Step c k) @ es = Step c k # es" by simp
  ultimately show ?case using st by (simp only: exec.simps option.case)
next
  case (Suc d)
  then have lt: "i < stop" and d: "d = stop - Suc i" by simp_all
  from lt Suc.prems(2) have wrap: "Suc i mod 2 ^ induction_bits body = Suc i" by simp
  let ?j = "Loop_wrapper (loop_arg body i) sem"
  let ?g = "\<lambda>n. Loop_wrapper (loop_arg body n) sem"
  let ?t = "s\<lparr>jobs := jobs s @ [?j], enqueued := enqueued s @ [?j],
      callers := (callers s)(c := Running f m (For_emplace body sem (Suc i) stop # rest))\<rparr>"
  from Suc.prems lt wrap have st: "step rv (Step c k) s = Some ?t"
    by (simp add: step_Step caller_step_def)
  from lt have "replicate (Suc (stop - i)) (Step c k) @ es
      = Step c k # replicate (Suc (stop - Suc i)) (Step c k) @ es"
    by (simp add: Suc_diff_Suc)
  then have "exec rv (replicate (Suc (stop - i)) (Step c k) @ es) s
      = exec rv (replicate (Suc (stop - Suc i)) (Step c k) @ es) ?t"
    using st by (simp only: exec.simps option.case)
  also have "\<dots> = exec rv es (?t\<lparr>jobs := jobs ?t @ map ?g [Suc i..<stop],
      enqueued := enqueued ?t @ map ?g [Suc i..<stop],
      callers := (callers ?t)(c := Running f m rest)\<rparr>)"
    by (rule Suc.hyps(1) [OF d]) (simp_all add: Suc.prems)
  also from lt have "?t\<lparr>jobs := jobs ?t @ map ?g [Suc i..<stop],
      enqueued := enqueued ?t @ map ?g [Suc i..<stop],
      callers := (callers ?t)(c := Running f m rest)\<rparr>
    = s\<lparr>jobs := jobs s @ map ?g [i..<stop], enqueued := enqueued s @ map ?g [i..<stop],
      callers := (callers s)(c := Running f m rest)\<rparr>"
    by (simp add: upt_conv_Cons)
  finally show ?case .
qed

lemma replicate_plus_4': "replicate (d + 4) x = x # (replicate (Suc d) x @ [x, x])"
  by (simp add: replicate_add numeral_eq_Suc flip: replicate_append_same)

text \<open>
  Where the claim of C4 does hold: with an induction variable of type \<open>size_t\<close> (a body
  without argument, or one taking a 64-bit unsigned index), \<open>run_loop\<close> called alone on a
  free lock pushes one wrapper for each index of \<open>[start, end)\<close>, in order, and is then left
  with exactly \<open>end - start\<close> acquisitions: none when \<open>start \<ge> end\<close>, so that it returns at
  its next step without having pushed or waited for anything.
\<close>

lemma run_loop_size_t:
  assumes idle: "callers s c = Idle" and free: "data_lock s = None"
    and bits: "induction_bits loop_body = 64"
  shows "exec Rev2 (Call c (Run_loop start stop loop_body)
            # replicate (unat stop - unat start + 4) (Step c k)) s
    = Some (s\<lparr>sems := (sems s)(next_sem s := 0), next_sem := Suc (next_sem s),
              jobs := jobs s @ map (\<lambda>n. Loop_wrapper (loop_arg loop_body n) (next_sem s))
                [unat start..<unat stop],
              enqueued := enqueued s @ map (\<lambda>n. Loop_wrapper (loop_arg loop_body n) (next_sem s))
                [unat start..<unat stop],
              threads := threads (cv_notify_all s), data_lock := None,
              callers := (callers s)(c := Running (Run_loop start stop loop_body) (Some (next_sem s))
                (replicate (unat stop - unat start) (Acquire (next_sem s))))\<rparr>)"
proof -
  let ?f = "Run_loop start stop loop_body"
  let ?m = "next_sem s"
  let ?acq = "replicate (unat stop - unat start) (Acquire ?m)"
  let ?g = "\<lambda>n. Loop_wrapper (loop_arg loop_body n) ?m"
  let ?js = "map ?g [unat start..<unat stop]"
  have stop: "unat stop < 2 ^ induction_bits loop_body"
    using unsigned_less [of stop, where ?'a = nat] bits by simp
  have start: "unat start mod 2 ^ induction_bits loop_body = unat start"
    using unsigned_less [of start, where ?'a = nat] bits by simp
  let ?s0 = "s\<lparr>sems := (sems s)(?m := 0), next_sem := Suc ?m\<rparr>"
  let ?s1 = "?s0\<lparr>callers := (callers s)(c := Running ?f (Some ?m)
      (Lock # For_emplace loop_body ?m (unat start) (unat stop) # Unlock # Notify_all # ?acq))\<rparr>"
  let ?s2 = "?s0\<lparr>data_lock := Some (Caller c), callers := (callers s)(c := Running ?f (Some ?m)
      (For_emplace loop_body ?m (unat start) (unat stop) # Unlock # Notify_all # ?acq))\<rparr>"
  let ?s3 = "?s0\<lparr>data_lock := Some (Caller c), jobs := jobs s @ ?js, enqueued := enqueued s @ ?js,
      callers := (callers s)(c := Running ?f (Some ?m) (Unlock # Notify_all # ?acq))\<rparr>"
  let ?s4 = "?s0\<lparr>data_lock := None, jobs := jobs s @ ?js, enqueued := enqueued s @ ?js,
      callers := (callers s)(c := Running ?f (Some ?m) (Notify_all # ?acq))\<rparr>"
  let ?s5 = "?s0\<lparr>jobs := jobs s @ ?js, enqueued := enqueued s @ ?js,
      threads := threads (cv_notify_all s), data_lock := None,
      callers := (callers s)(c := Running ?f (Some ?m) ?acq)\<rparr>"
  have 1: "step Rev2 (Call c ?f) s = Some ?s1"
    using idle by (simp add: step_def call_def run_loop_def start)
  have 2: "step Rev2 (Step c k) ?s1 = Some ?s2"
    using free by (simp add: step_def caller_step_def)
  have "exec Rev2 (replicate (Suc (unat stop - unat start)) (Step c k) @ es) ?s2
    = exec Rev2 es (?s2\<lparr>jobs := jobs ?s2 @ ?js, enqueued := enqueued ?s2 @ ?js,
        callers := (callers ?s2)(c := Running ?f (Some ?m) (Unlock # Notify_all # ?acq))\<rparr>)" for es
    by (rule for_emplace_exec [OF _ stop]) simp
  moreover have "?s2\<lparr>jobs := jobs ?s2 @ ?js, enqueued := enqueued ?s2 @ ?js,
        callers := (callers ?s2)(c := Running ?f (Some ?m) (Unlock # Notify_all # ?acq))\<rparr> = ?s3"
    by simp
  ultimately have 3: "exec Rev2 (replicate (Suc (unat stop - unat start)) (Step c k) @ es) ?s2
    = exec Rev2 es ?s3" for es by simp
  have 4: "step Rev2 (Step c k) ?s3 = Some ?s4"
    by (simp add: step_def caller_step_def)
  have 5: "step Rev2 (Step c k) ?s4 = Some ?s5"
    by (simp add: step_def caller_step_def cv_notify_all_def)
  show ?thesis
    by (simp only: replicate_plus_4' exec.simps 1 2 3 4 5 option.case)
qed

end
